theory Spec2Isabelle
  imports Main "HOL-Library.Sublist"
begin

section \<open>Data model\<close>

text \<open>
  A \<open>toc_item\<close> owns its children through \<open>std::unique_ptr\<close>, so a forest of items is a
  finite tree; \<open>ref\<close> is the anchor string (empty when the item has none). The heading
  builder default-constructs the item and assigns only \<open>name\<close> and \<open>offset\<close>.
\<close>

datatype toc_item =
  Toc_item (name: string) (ref: string) (offset: int) (children: "toc_item list")

text \<open>
  The marker and FFI structs are declared outside the files at hand. The fields the builders
  read are kept: the heading text, its position as \<open>static_cast<int>(marker->pos)\<close> yields
  it, its level; and name, reference, offset and depth of a flat table-of-contents entry.
\<close>

datatype heading_marker =
  Heading_marker (marker_text: string) (marker_pos: int) (marker_level: int)

datatype ffi_toc_item =
  Ffi_toc_item (ffi_name: string) (ffi_reference: string) (ffi_offset: int) (ffi_depth: int)

text \<open>
  Modelled from the spec: \<open>MAX_HEADING_LEVELS\<close> comes from \<open>constants.hpp\<close>, which is not
  among the sources; the spec gives the heading levels as 1 to 6.
\<close>

definition MAX_HEADING_LEVELS :: int where
  "MAX_HEADING_LEVELS = 6"

definition MAX_DEPTH :: int where
  "MAX_DEPTH = 32"

section \<open>Pointers into the forest\<close>

text \<open>
  \<open>level_stacks\<close> and \<open>depth_stacks\<close> hold pointers to children vectors. Such a vector is
  addressed by the indices that lead to it from the root vector: \<open>[]\<close> is \<open>&result\<close>, and
  \<open>p @ [i]\<close> is \<open>&(*p)[i]->children\<close>. Items are only ever appended, so an address stays
  valid and keeps denoting the same vector. \<open>None\<close> is \<open>nullptr\<close>. An index past the end of
  a vector and a pointer that leads nowhere are undefined behaviour in the source; the model
  returns a \<open>fault\<close> there.
\<close>

datatype fault = Out_of_bounds | Dangling_pointer

type_synonym vec_ptr = "nat list"

type_synonym stacks = "vec_ptr option list"

fun set_children :: "toc_item \<Rightarrow> toc_item list \<Rightarrow> toc_item" where
  "set_children (Toc_item n r off _) cs = Toc_item n r off cs"

fun deref :: "toc_item list \<Rightarrow> vec_ptr \<Rightarrow> toc_item list option" where
  "deref v [] = Some v"
| "deref v (i # p) = (if i < length v then deref (children (v ! i)) p else None)"

text \<open>\<open>parent_list->push_back(std::move(item))\<close> through a pointer.\<close>

fun push_back :: "toc_item list \<Rightarrow> vec_ptr \<Rightarrow> toc_item \<Rightarrow> toc_item list option" where
  "push_back v [] x = Some (v @ [x])"
| "push_back v (i # p) x =
     (if i < length v
      then (case push_back (children (v ! i)) p x of
              None \<Rightarrow> None
            | Some cs \<Rightarrow> Some (v[i := set_children (v ! i) cs]))
      else None)"

section \<open>The hierarchy builders\<close>

text \<open>
  \<open>build_toc_from_headings\<close> (utils.cpp) builds the forest from the heading markers of a
  buffer; \<open>populate_toc_items\<close> (the adapter for the Rust parsers, in its version that
  reconstructs the hierarchy) builds it from flat entries tagged with a depth. Both keep an
  array of pointers, one slot per level, to the children vector that is open at that level.
\<close>

text \<open>
  The downward scan \<open>for (int i = ...; i >= 0; --i) if (stacks[i] != nullptr) { ...; break; }\<close>
  started at index \<open>i\<close>: the first non-null slot, or \<open>None\<close> when every slot down to 0 is
  null (the source then falls back to the root vector).
\<close>

fun scan_down :: "stacks \<Rightarrow> nat \<Rightarrow> fault + vec_ptr option" where
  "scan_down st 0 = (if 0 < length st then Inr (st ! 0) else Inl Out_of_bounds)"
| "scan_down st (Suc i) =
     (if Suc i < length st
      then (case st ! Suc i of Some p \<Rightarrow> Inr (Some p) | None \<Rightarrow> scan_down st i)
      else Inl Out_of_bounds)"

text \<open>The clearing loop: every slot from index \<open>k\<close> to the end of the array becomes null.\<close>

definition clear_from :: "nat \<Rightarrow> stacks \<Rightarrow> stacks" where
  "clear_from k st = take k st @ replicate (length st - k) None"

text \<open>
  The part of the loop body that both builders share, after the range check: scan down from
  slot \<open>i\<close>, append the item to the vector found, store the address of the new item's
  children in slot \<open>k\<close>, clear the slots above \<open>k\<close>. The headings builder scans from
  \<open>level - 1\<close> and stores at \<open>level\<close>; the flat builder scans from \<open>depth\<close> and stores at
  \<open>depth + 1\<close>. \<open>parent_list->back()\<close> is the item just appended, at the index that was the
  vector's length.
\<close>

definition attach ::
  "nat \<Rightarrow> nat \<Rightarrow> toc_item \<Rightarrow> toc_item list \<times> stacks \<Rightarrow> fault + toc_item list \<times> stacks" where
  "attach i k item s =
     (case s of (result, st) \<Rightarrow>
        (case scan_down st i of
           Inl e \<Rightarrow> Inl e
         | Inr found \<Rightarrow>
             (let parent_list = (case found of Some p \<Rightarrow> p | None \<Rightarrow> []) in
              case deref result parent_list of
                None \<Rightarrow> Inl Dangling_pointer
              | Some v \<Rightarrow>
                  (case push_back result parent_list item of
                     None \<Rightarrow> Inl Dangling_pointer
                   | Some result' \<Rightarrow>
                       if k < length st
                       then Inr (result',
                                 clear_from (Suc k) (st[k := Some (parent_list @ [length v])]))
                       else Inl Out_of_bounds))))"

definition initial_stacks :: "int \<Rightarrow> stacks" where
  "initial_stacks n = (replicate (nat (n + 1)) None)[0 := Some []]"

definition heading_step ::
  "toc_item list \<times> stacks \<Rightarrow> heading_marker \<Rightarrow> fault + toc_item list \<times> stacks" where
  "heading_step s marker =
     (let item = Toc_item (marker_text marker) [] (marker_pos marker) [];
          level = marker_level marker
      in if level < 1 \<or> level > MAX_HEADING_LEVELS then Inr s
         else attach (nat (level - 1)) (nat level) item s)"

fun heading_loop ::
  "toc_item list \<times> stacks \<Rightarrow> heading_marker list \<Rightarrow> fault + toc_item list \<times> stacks" where
  "heading_loop s [] = Inr s"
| "heading_loop s (marker # markers) =
     (case heading_step s marker of Inl e \<Rightarrow> Inl e | Inr s' \<Rightarrow> heading_loop s' markers)"

definition build_toc_from_headings :: "heading_marker list \<Rightarrow> fault + toc_item list" where
  "build_toc_from_headings heading_markers =
     (if heading_markers = [] then Inr []
      else map_sum id fst (heading_loop ([], initial_stacks MAX_HEADING_LEVELS) heading_markers))"

definition toc_step ::
  "toc_item list \<times> stacks \<Rightarrow> ffi_toc_item \<Rightarrow> fault + toc_item list \<times> stacks" where
  "toc_step s rust_toc =
     (let item = Toc_item (ffi_name rust_toc) (ffi_reference rust_toc) (ffi_offset rust_toc) [];
          depth = ffi_depth rust_toc
      in if depth < 0 \<or> depth > MAX_DEPTH then Inr s
         else attach (nat depth) (nat (depth + 1)) item s)"

fun toc_loop ::
  "toc_item list \<times> stacks \<Rightarrow> ffi_toc_item list \<Rightarrow> fault + toc_item list \<times> stacks" where
  "toc_loop s [] = Inr s"
| "toc_loop s (rust_toc # rest) =
     (case toc_step s rust_toc of Inl e \<Rightarrow> Inl e | Inr s' \<Rightarrow> toc_loop s' rest)"

text \<open>\<open>toc_items\<close> is the vector the caller passes by reference (empty at the one call site).\<close>

definition populate_toc_items :: "toc_item list \<Rightarrow> ffi_toc_item list \<Rightarrow> fault + toc_item list" where
  "populate_toc_items toc_items ffi_toc_items =
     (if ffi_toc_items = [] then Inr toc_items
      else map_sum id fst (toc_loop (toc_items, initial_stacks MAX_DEPTH) ffi_toc_items))"

section \<open>Notions used to state the properties of the builders\<close>

definition heading_in_range :: "heading_marker \<Rightarrow> bool" where
  "heading_in_range m = (\<not> (marker_level m < 1 \<or> marker_level m > MAX_HEADING_LEVELS))"

definition depth_in_range :: "ffi_toc_item \<Rightarrow> bool" where
  "depth_in_range t = (\<not> (ffi_depth t < 0 \<or> ffi_depth t > MAX_DEPTH))"

definition heading_pair :: "heading_marker \<Rightarrow> string \<times> int" where
  "heading_pair m = (marker_text m, marker_pos m)"

text \<open>Pre-order traversal of a forest, as (name, offset) pairs.\<close>

fun flatten_item :: "toc_item \<Rightarrow> (string \<times> int) list" where
  "flatten_item (Toc_item n r off cs) = (n, off) # concat (map flatten_item cs)"

definition flatten :: "toc_item list \<Rightarrow> (string \<times> int) list" where
  "flatten v = concat (map flatten_item v)"

fun node_count_item :: "toc_item \<Rightarrow> nat" where
  "node_count_item (Toc_item n r off cs) = Suc (sum_list (map node_count_item cs))"

definition node_count :: "toc_item list \<Rightarrow> nat" where
  "node_count v = sum_list (map node_count_item v)"

text \<open>
  An address lies on the rightmost spine of a forest when every index in it selects the last
  item of its vector. Appending through such an address extends the pre-order traversal at
  its end.
\<close>

fun rightmost :: "vec_ptr \<Rightarrow> toc_item list \<Rightarrow> bool" where
  "rightmost [] v = True"
| "rightmost (i # p) v = (v \<noteq> [] \<and> i = length v - 1 \<and> rightmost p (children (last v)))"

text \<open>
  The loop invariant of both builders: slot 0 holds the root vector, every non-null slot
  holds an address on the rightmost spine, and the addresses grow with the slot index.
\<close>

definition spine_inv :: "toc_item list \<times> stacks \<Rightarrow> bool" where
  "spine_inv s =
     (case s of (v, st) \<Rightarrow>
        0 < length st \<and> st ! 0 = Some [] \<and>
        (\<forall>i p. i < length st \<and> st ! i = Some p \<longrightarrow> rightmost p v) \<and>
        (\<forall>i j p q. i < j \<and> j < length st \<and> st ! i = Some p \<and> st ! j = Some q \<longrightarrow> prefix p q))"

section \<open>Notions used to state the shape of the built forest\<close>

text \<open>
  Both loops, seen as one: an event in range is an item together with the slot its children
  go to (the level of a heading, the depth of a flat entry plus one); the scan starts one
  slot below.
\<close>

definition heading_event :: "heading_marker \<Rightarrow> nat \<times> toc_item" where
  "heading_event m = (nat (marker_level m), Toc_item (marker_text m) [] (marker_pos m) [])"

definition toc_event :: "ffi_toc_item \<Rightarrow> nat \<times> toc_item" where
  "toc_event t =
     (nat (ffi_depth t + 1), Toc_item (ffi_name t) (ffi_reference t) (ffi_offset t) [])"

fun attach_all ::
  "toc_item list \<times> stacks \<Rightarrow> (nat \<times> toc_item) list \<Rightarrow> fault + toc_item list \<times> stacks" where
  "attach_all s [] = Inr s"
| "attach_all s (e # es) =
     (case attach (fst e - 1) (fst e) (snd e) s of
        Inl f \<Rightarrow> Inl f
      | Inr s' \<Rightarrow> attach_all s' es)"

text \<open>
  The forest in which every event is a child of the nearest preceding event of strictly
  smaller level, and a root when there is none: the events that follow an event with
  greater levels, up to the first that has not, form its subtree.
\<close>

function nest :: "(nat \<times> toc_item) list \<Rightarrow> toc_item list" where
  "nest [] = []"
| "nest (e # es) =
     set_children (snd e) (nest (takeWhile (\<lambda>d. fst e < fst d) es))
       # nest (dropWhile (\<lambda>d. fst e < fst d) es)"
  by pat_completeness auto
termination
  by (relation "measure length")
    (auto simp: less_Suc_eq_le length_takeWhile_le length_dropWhile_le)

text \<open>The forest with the items \<open>xs\<close> appended to the vector at address \<open>p\<close>.\<close>

fun graft :: "toc_item list \<Rightarrow> vec_ptr \<Rightarrow> toc_item list \<Rightarrow> toc_item list" where
  "graft v [] xs = v @ xs"
| "graft v (i # p) xs = v[i := set_children (v ! i) (graft (children (v ! i)) p xs)]"

text \<open>
  A node is named by its (name, offset) pair. \<open>parents\<close> lists the nodes of a forest in
  pre-order, each with its parent (\<open>None\<close> for a root). \<open>expected_parents\<close> lists the events
  in arrival order, each with the nearest preceding event of strictly smaller level;
  \<open>earlier\<close> holds the events already seen, the latest first.
\<close>

definition label :: "toc_item \<Rightarrow> string \<times> int" where
  "label t = (name t, offset t)"

fun nearest_smaller :: "(nat \<times> toc_item) list \<Rightarrow> nat \<Rightarrow> (string \<times> int) option" where
  "nearest_smaller [] k = None"
| "nearest_smaller (d # ds) k =
     (if fst d < k then Some (label (snd d)) else nearest_smaller ds k)"

fun expected_parents ::
  "(nat \<times> toc_item) list \<Rightarrow> (nat \<times> toc_item) list
    \<Rightarrow> ((string \<times> int) \<times> (string \<times> int) option) list" where
  "expected_parents earlier [] = []"
| "expected_parents earlier (e # es) =
     (label (snd e), nearest_smaller earlier (fst e)) # expected_parents (e # earlier) es"

fun parents_item ::
  "(string \<times> int) option \<Rightarrow> toc_item \<Rightarrow> ((string \<times> int) \<times> (string \<times> int) option) list" where
  "parents_item par (Toc_item n r off cs) =
     ((n, off), par) # concat (map (parents_item (Some (n, off))) cs)"

definition parents ::
  "(string \<times> int) option \<Rightarrow> toc_item list \<Rightarrow> ((string \<times> int) \<times> (string \<times> int) option) list" where
  "parents par v = concat (map (parents_item par) v)"

section \<open>The cleanup pass\<close>

text \<open>
  \<open>wxString\<close> is modelled as a list of single-byte characters: \<open>Lower\<close> and
  \<open>CmpNoCase\<close> fold the letters A to Z, and \<open>wxIsalnum\<close> accepts the ASCII letters and
  digits (the library functions in the "C" locale).
\<close>

definition wxTolower :: "char \<Rightarrow> char" where
  "wxTolower c = (let n = (of_char c :: nat) in if 65 \<le> n \<and> n \<le> 90 then char_of (n + 32) else c)"

definition Lower :: "string \<Rightarrow> string" where
  "Lower s = map wxTolower s"

text \<open>\<open>item->name.CmpNoCase(first_child->name) == 0\<close>.\<close>

definition CmpNoCase_equal :: "string \<Rightarrow> string \<Rightarrow> bool" where
  "CmpNoCase_equal a b = (Lower a = Lower b)"

text \<open>The condition of the \<open>if\<close> at the head of the collapse.\<close>

definition collapses :: "toc_item \<Rightarrow> toc_item \<Rightarrow> bool" where
  "collapses item first_child =
     (CmpNoCase_equal (name item) (name first_child)
      \<and> (ref item = ref first_child \<or> ref item = []))"

text \<open>
  The body of the loop of \<open>cleanup_toc\<close> before the recursive call: the check of one item
  against its first child, the adoption of reference and offset, the erase and the insert
  of the grandchildren at the front.
\<close>

fun collapse_check :: "toc_item \<Rightarrow> toc_item" where
  "collapse_check (Toc_item n r off []) = Toc_item n r off []"
| "collapse_check (Toc_item n r off (first_child # siblings)) =
     (if collapses (Toc_item n r off (first_child # siblings)) first_child
      then (if r = [] \<and> ref first_child \<noteq> []
            then Toc_item n (ref first_child) (offset first_child) (children first_child @ siblings)
            else Toc_item n r off (children first_child @ siblings))
      else Toc_item n r off (first_child # siblings))"

text \<open>
  \<open>cleanup_toc\<close> treats the items of a vector one after the other: the check, then the
  recursive call on the children as the check left them.
\<close>

function cleanup_toc :: "toc_item list \<Rightarrow> toc_item list" where
  "cleanup_toc [] = []"
| "cleanup_toc (item # items) =
     set_children (collapse_check item) (cleanup_toc (children (collapse_check item)))
       # cleanup_toc items"
  by pat_completeness auto
termination
proof (relation "measure (size_list size)")
  show "wf (measure (size_list size))" by simp
next
  fix item :: toc_item and items :: "toc_item list"
  have le: "size_list size (children a) \<le> size a" for a :: toc_item
    by (cases a) simp
  show "(children (collapse_check item), item # items) \<in> measure (size_list size)"
  proof (cases item)
    case (Toc_item n r off cs)
    show ?thesis
    proof (cases cs)
      case Nil
      with Toc_item show ?thesis by simp
    next
      case (Cons first_child siblings)
      with Toc_item le [of first_child] show ?thesis
        by (auto simp: less_Suc_eq_le)
    qed
  qed
next
  fix item :: toc_item and items :: "toc_item list"
  show "(items, item # items) \<in> measure (size_list size)" by simp
qed

section \<open>Notions used to state the properties of the cleanup pass\<close>

fun every_item :: "(toc_item \<Rightarrow> bool) \<Rightarrow> toc_item \<Rightarrow> bool" where
  "every_item P (Toc_item n r off cs) = (P (Toc_item n r off cs) \<and> list_all (every_item P) cs)"

text \<open>The item does not satisfy the collapse condition against its first child.\<close>

definition first_child_differs :: "toc_item \<Rightarrow> bool" where
  "first_child_differs item =
     (case children item of [] \<Rightarrow> True | first_child # _ \<Rightarrow> \<not> collapses item first_child)"

text \<open>
  A forest without multi-level duplication chains, as claim C6 words it: no item that,
  after one collapse, again satisfies the collapse condition against its new first child.
\<close>

definition no_chain_at :: "toc_item \<Rightarrow> bool" where
  "no_chain_at item =
     (case children item of
        [] \<Rightarrow> True
      | first_child # _ \<Rightarrow>
          collapses item first_child \<longrightarrow> first_child_differs (collapse_check item))"

definition chain_free :: "toc_item list \<Rightarrow> bool" where
  "chain_free forest = list_all (every_item no_chain_at) forest"

text \<open>
  The condition under which one pass settles an item: after the item's own check (whether
  or not it collapsed), the item does not satisfy the collapse condition against its first
  child as that child stands after the child's own check (which may have given it a
  reference).
\<close>

definition settled_at :: "toc_item \<Rightarrow> bool" where
  "settled_at item =
     (case children (collapse_check item) of
        [] \<Rightarrow> True
      | next_child # _ \<Rightarrow> \<not> collapses (collapse_check item) (collapse_check next_child))"

definition settled :: "toc_item list \<Rightarrow> bool" where
  "settled forest = list_all (every_item settled_at) forest"

section \<open>Text search\<close>

text \<open>
  \<open>find_options\<close> is a bit set with four flags; \<open>has_option\<close> reads one of them.
  \<open>wxNOT_FOUND\<close> is -1.
\<close>

record find_options =
  forward :: bool
  match_case :: bool
  match_whole_word :: bool
  use_regex :: bool

definition wxNOT_FOUND :: int where
  "wxNOT_FOUND = - 1"

definition wxIsalnum :: "char \<Rightarrow> bool" where
  "wxIsalnum c =
     (let n = (of_char c :: nat)
      in (48 \<le> n \<and> n \<le> 57) \<or> (65 \<le> n \<and> n \<le> 90) \<or> (97 \<le> n \<and> n \<le> 122))"

definition wx_Left :: "string \<Rightarrow> nat \<Rightarrow> string" where
  "wx_Left s n = take n s"

text \<open>
  \<open>wxString::find(needle, start)\<close> and \<open>wxString::rfind(needle)\<close>: the first occurrence
  at or after \<open>start\<close>, the last occurrence; \<open>None\<close> is \<open>npos\<close>.
\<close>

definition occurs_at :: "string \<Rightarrow> string \<Rightarrow> nat \<Rightarrow> bool" where
  "occurs_at hay needle i =
     (i + length needle \<le> length hay \<and> take (length needle) (drop i hay) = needle)"

definition wx_find :: "string \<Rightarrow> string \<Rightarrow> nat \<Rightarrow> nat option" where
  "wx_find hay needle start = List.find (occurs_at hay needle) [start..<Suc (length hay)]"

definition wx_rfind :: "string \<Rightarrow> string \<Rightarrow> nat option" where
  "wx_rfind hay needle = List.find (occurs_at hay needle) (rev [0..<Suc (length hay)])"

text \<open>
  \<open>static_cast<size_t>\<close> of a \<open>long\<close> (a negative value wraps to a value beyond every
  string length) and \<open>static_cast<long>\<close> of a position (\<open>npos\<close> becomes -1).
\<close>

definition size_t_of_long :: "int \<Rightarrow> nat" where
  "size_t_of_long x = (if x < 0 then nat (x + 2 ^ 64) else nat x)"

definition long_of_size_t :: "nat option \<Rightarrow> int" where
  "long_of_size_t r = (case r of None \<Rightarrow> - 1 | Some i \<Rightarrow> int i)"

text \<open>
  The \<open>while (true)\<close> loop of the whole-word search, entered with \<open>pos0\<close>. Not returning
  is the value \<open>None\<close>. The boundary checks read the original haystack, the search runs
  on the case-folded one.
\<close>

partial_function (option) whole_word_loop ::
  "string \<Rightarrow> string \<Rightarrow> string \<Rightarrow> string \<Rightarrow> bool \<Rightarrow> int \<Rightarrow> int option" where
  "whole_word_loop haystack needle search_haystack search_needle fwd pos0 =
     (let pos = (if fwd
                 then long_of_size_t (wx_find search_haystack search_needle (size_t_of_long pos0))
                 else long_of_size_t
                        (wx_rfind (wx_Left search_haystack (size_t_of_long pos0)) search_needle))
      in if pos = wxNOT_FOUND then Some wxNOT_FOUND
         else
           (let word_start =
                  (pos = 0 \<or> \<not> wxIsalnum (haystack ! (size_t_of_long pos - 1)));
                word_end =
                  (size_t_of_long pos + length needle \<ge> length haystack
                   \<or> \<not> wxIsalnum (haystack ! (size_t_of_long pos + length needle)))
            in if word_start \<and> word_end then Some pos
               else
                 (let pos' = (if fwd then pos + 1 else pos - 1)
                  in if fwd \<and> size_t_of_long pos' \<ge> length haystack then Some wxNOT_FOUND
                     else if \<not> fwd \<and> pos' < 0 then Some wxNOT_FOUND
                     else whole_word_loop haystack needle search_haystack search_needle fwd pos')))"

definition find_text_literal :: "string \<Rightarrow> string \<Rightarrow> int \<Rightarrow> find_options \<Rightarrow> int option" where
  "find_text_literal haystack needle start options =
     (let search_haystack = (if match_case options then haystack else Lower haystack);
          search_needle = (if match_case options then needle else Lower needle)
      in if \<not> match_whole_word options
         then Some (if forward options
                    then long_of_size_t (wx_find search_haystack search_needle (size_t_of_long start))
                    else long_of_size_t
                           (wx_rfind (wx_Left search_haystack (size_t_of_long start)) search_needle))
         else whole_word_loop haystack needle search_haystack search_needle (forward options) start)"

text \<open>
  \<open>std::regex\<close> is a library: its constructor and \<open>std::regex_search\<close> are parameters of
  the model. A compiled regex is the function that \<open>regex_search\<close> computes on a
  character range: the start of the leftmost match relative to the range, no match, or an
  exception. The constructor takes the pattern and the \<open>icase\<close> flag and returns \<open>None\<close>
  when it throws. \<open>ToStdString\<close> is taken as the identity.
\<close>

datatype regex_result = Match nat | No_match | Regex_error

type_synonym regex = "string \<Rightarrow> regex_result"

type_synonym regex_ctor = "string \<Rightarrow> bool \<Rightarrow> regex option"

datatype thrown = Exception

text \<open>The \<open>while (cur <= base + end)\<close> loop, with \<open>cur\<close> and \<open>end\<close> as offsets from \<open>base\<close>.\<close>

function backward_regex_loop :: "regex \<Rightarrow> string \<Rightarrow> nat \<Rightarrow> nat \<Rightarrow> int \<Rightarrow> thrown + int" where
  "backward_regex_loop rx text end cur last_match =
     (if cur \<le> end
      then (case rx (take (end - cur) (drop cur text)) of
              Match k \<Rightarrow> backward_regex_loop rx text end (cur + k + 1) (int (cur + k))
            | No_match \<Rightarrow> Inr last_match
            | Regex_error \<Rightarrow> Inl Exception)
      else Inr last_match)"
  by pat_completeness auto
termination
  by (relation "measure (\<lambda>(rx, text, end, cur, last_match). Suc end - cur)") auto

definition regex_pattern :: "string \<Rightarrow> find_options \<Rightarrow> string" where
  "regex_pattern needle options =
     (if match_whole_word options
      then [CHR 0x5C, CHR ''b''] @ needle @ [CHR 0x5C, CHR ''b'']
      else needle)"

text \<open>The \<open>try\<close> block of \<open>find_text_regex\<close>; \<open>Inl\<close> is an exception that reaches the handler.\<close>

definition find_text_regex_try ::
  "regex_ctor \<Rightarrow> string \<Rightarrow> string \<Rightarrow> int \<Rightarrow> find_options \<Rightarrow> thrown + int" where
  "find_text_regex_try ctor haystack needle start options =
     (let pattern = regex_pattern needle options;
          text = haystack
      in case ctor pattern (\<not> match_case options) of
           None \<Rightarrow> Inl Exception
         | Some rx \<Rightarrow>
             if forward options
             then (let begin = min (size_t_of_long start) (length text)
                   in case rx (drop begin text) of
                        Match k \<Rightarrow> Inr (int (begin + k))
                      | No_match \<Rightarrow> Inr wxNOT_FOUND
                      | Regex_error \<Rightarrow> Inl Exception)
             else (let end = min (size_t_of_long start) (length text)
                   in backward_regex_loop rx text end 0 wxNOT_FOUND))"

text \<open>\<open>catch (...)\<close> turns every exception into \<open>wxNOT_FOUND\<close>.\<close>

definition find_text_regex :: "regex_ctor \<Rightarrow> string \<Rightarrow> string \<Rightarrow> int \<Rightarrow> find_options \<Rightarrow> int" where
  "find_text_regex ctor haystack needle start options =
     (case find_text_regex_try ctor haystack needle start options of
        Inl e \<Rightarrow> wxNOT_FOUND
      | Inr r \<Rightarrow> r)"

definition find_text :: "regex_ctor \<Rightarrow> string \<Rightarrow> string \<Rightarrow> int \<Rightarrow> find_options \<Rightarrow> int option" where
  "find_text ctor haystack needle start options =
     (if needle = [] then Some wxNOT_FOUND
      else if use_regex options then Some (find_text_regex ctor haystack needle start options)
      else find_text_literal haystack needle start options)"

section \<open>Notions used to state the properties of the regex search\<close>

text \<open>
  The end of the backward window, \<open>std::min<size_t>(static_cast<size_t>(start), text.size())\<close>.
\<close>

definition window_end :: "string \<Rightarrow> int \<Rightarrow> nat" where
  "window_end haystack start = min (size_t_of_long start) (length haystack)"

text \<open>
  A regex whose restarted searches report only matches of the pattern in the text: \<open>M\<close>
  is the set of positions at which the pattern matches in the text, and every search the
  loop can start, from the beginning of the text or from one past a position of \<open>M\<close>,
  reports the least position of \<open>M\<close> from the cursor \<open>cur\<close> to the window's end \<open>e\<close>.
\<close>

definition window_regex :: "regex \<Rightarrow> string \<Rightarrow> nat \<Rightarrow> (nat \<Rightarrow> bool) \<Rightarrow> bool" where
  "window_regex rx text e M =
     list_all
       (\<lambda>cur. cur = 0 \<or> M (cur - 1) \<longrightarrow>
              rx (take (e - cur) (drop cur text))
                = (case List.find M [cur..<Suc e] of
                     Some p \<Rightarrow> Match (p - cur)
                   | None \<Rightarrow> No_match))
       [0..<Suc e]"

text \<open>
  The result in the words of the specification: the rightmost match that starts strictly
  before \<open>start\<close>.
\<close>

definition rightmost_before :: "(nat \<Rightarrow> bool) \<Rightarrow> string \<Rightarrow> int \<Rightarrow> int" where
  "rightmost_before M haystack start =
     (case List.find (\<lambda>p. M p \<and> int p < start) (rev [0..<Suc (length haystack)]) of
        Some p \<Rightarrow> int p
      | None \<Rightarrow> wxNOT_FOUND)"

text \<open>
  The pattern \<open>^a\<close> as \<open>std::regex_search\<close> evaluates it on a character range when the
  flag \<open>match_prev_avail\<close> is not passed (\<open>find_text_regex\<close> passes no match flags): the
  first character of the range counts as the beginning of the text, so the pattern matches
  there when the range begins with \<open>a\<close> (or \<open>A\<close> under \<open>icase\<close>), and nowhere else.
\<close>

definition caret_a :: "bool \<Rightarrow> regex" where
  "caret_a icase searched =
     (case searched of
        [] \<Rightarrow> No_match
      | c # _ \<Rightarrow> if (if icase then wxTolower c else c) = CHR ''a'' then Match 0 else No_match)"

text \<open>The constructor, on the pattern \<open>^a\<close> (no other pattern is used with it).\<close>

definition caret_a_ctor :: regex_ctor where
  "caret_a_ctor pattern icase = (if pattern = ''^a'' then Some (caret_a icase) else None)"

section \<open>Appending along the rightmost spine\<close>

lemma children_set_children [simp]: "children (set_children t cs) = cs"
  by (cases t) simp

lemma set_children_same [simp]: "set_children t (children t) = t"
  by (cases t) simp

lemma flatten_item_set_children:
  "flatten_item (set_children t cs) = (name t, offset t) # flatten cs"
  by (cases t) (simp add: flatten_def)

lemma flatten_item_unfold: "flatten_item t = (name t, offset t) # flatten (children t)"
  by (cases t) (simp add: flatten_def)

lemma node_count_item_set_children:
  "node_count_item (set_children t cs) = Suc (node_count cs)"
  by (cases t) (simp add: node_count_def)

lemma node_count_item_unfold: "node_count_item t = Suc (node_count (children t))"
  by (cases t) (simp add: node_count_def)

lemma flatten_append [simp]: "flatten (v @ w) = flatten v @ flatten w"
  by (simp add: flatten_def)

lemma node_count_append [simp]: "node_count (v @ w) = node_count v + node_count w"
  by (simp add: node_count_def)

lemma flatten_single [simp]: "flatten [t] = flatten_item t"
  by (simp add: flatten_def)

lemma node_count_single [simp]: "node_count [t] = node_count_item t"
  by (simp add: node_count_def)

lemma update_last: "v \<noteq> [] \<Longrightarrow> v[length v - Suc 0 := y] = butlast v @ [y]"
  by (induction v rule: rev_induct) (simp_all add: list_update_append)

lemma rightmost_deref: "rightmost p v \<Longrightarrow> \<exists>w. deref v p = Some w"
proof (induction p arbitrary: v)
  case Nil
  then show ?case by simp
next
  case (Cons i p)
  then have "v \<noteq> []" and i: "i = length v - 1" and r: "rightmost p (children (last v))"
    by simp_all
  then have "v ! i = last v" and "i < length v"
    by (simp_all add: last_conv_nth)
  with Cons.IH [OF r] show ?case by simp
qed

lemma rightmost_prefix: "rightmost p v \<Longrightarrow> prefix q p \<Longrightarrow> rightmost q v"
proof (induction q arbitrary: p v)
  case Nil
  then show ?case by simp
next
  case (Cons i q)
  then obtain p' where p: "p = i # p'" and pre: "prefix q p'"
    by (cases p) auto
  with Cons.prems(1) Cons.IH [of p' "children (last v)"] show ?case
    by simp
qed

lemma push_back_rightmost:
  assumes "rightmost p v" and "deref v p = Some w"
  shows "\<exists>v'. push_back v p x = Some v'
           \<and> flatten v' = flatten v @ flatten_item x
           \<and> node_count v' = node_count v + node_count_item x
           \<and> rightmost (p @ [length w]) v'"
  using assms
proof (induction p arbitrary: v)
  case Nil
  then show ?case by simp
next
  case (Cons i p)
  then have ne: "v \<noteq> []" and i: "i = length v - 1" and r: "rightmost p (children (last v))"
    by simp_all
  then have nth: "v ! i = last v" and lt: "i < length v"
    by (simp_all add: last_conv_nth)
  from Cons.prems(2) nth lt have d: "deref (children (last v)) p = Some w"
    by simp
  from Cons.IH [OF r d] obtain cs where
    pb: "push_back (children (last v)) p x = Some cs" and
    fl: "flatten cs = flatten (children (last v)) @ flatten_item x" and
    nc: "node_count cs = node_count (children (last v)) + node_count_item x" and
    rm: "rightmost (p @ [length w]) cs"
    by blast
  let ?v' = "butlast v @ [set_children (last v) cs]"
  have res: "push_back v (i # p) x = Some ?v'"
    using pb nth lt ne i by (simp add: update_last)
  have v: "v = butlast v @ [last v]"
    using ne by simp
  have "flatten v = flatten (butlast v) @ flatten_item (last v)"
    by (subst v) simp
  then have f: "flatten ?v' = flatten v @ flatten_item x"
    using fl by (simp add: flatten_item_set_children flatten_item_unfold [of "last v"])
  have "node_count v = node_count (butlast v) + node_count_item (last v)"
    by (subst v) simp
  then have n: "node_count ?v' = node_count v + node_count_item x"
    using nc by (simp add: node_count_item_set_children node_count_item_unfold [of "last v"])
  have "rightmost ((i # p) @ [length w]) ?v'"
    using rm i ne by simp
  with res f n show ?case by blast
qed

section \<open>The loop invariant\<close>

lemma scan_down_finds:
  assumes "st ! 0 = Some []" and "i < length st"
  shows "\<exists>j p. j \<le> i \<and> st ! j = Some p \<and> (\<forall>m. j < m \<and> m \<le> i \<longrightarrow> st ! m = None)
           \<and> scan_down st i = Inr (Some p)"
  using assms(2)
proof (induction i)
  case 0
  with assms(1) show ?case by auto
next
  case (Suc i)
  show ?case
  proof (cases "st ! Suc i")
    case None
    from Suc have "i < length st" by simp
    from Suc.IH [OF this] obtain j p where
      j: "j \<le> i" "st ! j = Some p" "\<forall>m. j < m \<and> m \<le> i \<longrightarrow> st ! m = None"
      "scan_down st i = Inr (Some p)"
      by blast
    have "\<forall>m. j < m \<and> m \<le> Suc i \<longrightarrow> st ! m = None"
      using j(3) None by (auto simp: le_Suc_eq)
    moreover have "scan_down st (Suc i) = Inr (Some p)"
      using None Suc.prems j(4) by simp
    ultimately show ?thesis
      using j(1,2) by (intro exI [of _ j] exI [of _ p]) simp
  next
    case (Some p)
    with Suc.prems show ?thesis
      by (intro exI [of _ "Suc i"] exI [of _ p]) auto
  qed
qed

lemma length_clear_from [simp]: "length (clear_from k st) = length st"
  by (simp add: clear_from_def)

lemma nth_clear_from:
  "i < length st \<Longrightarrow> clear_from k st ! i = (if i < k then st ! i else None)"
  by (simp add: clear_from_def nth_append)

lemma attach_inv:
  assumes inv: "spine_inv (v, st)" and k: "Suc i < length st" and leaf: "children x = []"
  shows "\<exists>v' st'. attach i (Suc i) x (v, st) = Inr (v', st') \<and> spine_inv (v', st')
           \<and> length st' = length st
           \<and> flatten v' = flatten v @ [(name x, offset x)]
           \<and> node_count v' = Suc (node_count v)"
proof -
  from inv have st0: "st ! 0 = Some []"
    and rm: "\<And>m p. m < length st \<Longrightarrow> st ! m = Some p \<Longrightarrow> rightmost p v"
    and ord: "\<And>a b p q. a < b \<Longrightarrow> b < length st \<Longrightarrow> st ! a = Some p \<Longrightarrow> st ! b = Some q
                \<Longrightarrow> prefix p q"
    by (auto simp: spine_inv_def)
  from k have i: "i < length st" by simp
  from scan_down_finds [OF st0 i] obtain j p where
    j: "j \<le> i" and sj: "st ! j = Some p"
    and gap: "\<And>m. j < m \<Longrightarrow> m \<le> i \<Longrightarrow> st ! m = None"
    and scan: "scan_down st i = Inr (Some p)"
    by blast
  from rm [OF _ sj] j i have rp: "rightmost p v" by simp
  from rightmost_deref [OF rp] obtain w where w: "deref v p = Some w" by blast
  from push_back_rightmost [OF rp w, of x] obtain v' where
    pb: "push_back v p x = Some v'" and
    fl: "flatten v' = flatten v @ flatten_item x" and
    nc: "node_count v' = node_count v + node_count_item x" and
    rnew: "rightmost (p @ [length w]) v'"
    by blast
  let ?st' = "clear_from (Suc (Suc i)) (st[Suc i := Some (p @ [length w])])"
  have res: "attach i (Suc i) x (v, st) = Inr (v', ?st')"
    using scan w pb k by (simp add: attach_def)
  have nth: "\<And>m. m < length st \<Longrightarrow>
      ?st' ! m = (if m \<le> i then st ! m else if m = Suc i then Some (p @ [length w]) else None)"
    by (auto simp: nth_clear_from nth_list_update)
  have below: "prefix q p" if "m \<le> i" and "st ! m = Some q" for m q
  proof (cases "m < j")
    case True
    from ord [OF True _ that(2) sj] j i show ?thesis by simp
  next
    case False
    show ?thesis
    proof (cases "m = j")
      case True
      with that sj show ?thesis by simp
    next
      case False
      with \<open>\<not> m < j\<close> have "j < m" by simp
      from gap [OF this that(1)] that(2) show ?thesis by simp
    qed
  qed
  have inv': "spine_inv (v', ?st')"
    unfolding spine_inv_def prod.case
  proof (intro conjI allI impI)
    show "0 < length ?st'" using k by auto
    have "0 < length st" using k by auto
    from nth [OF this] st0 show "?st' ! 0 = Some []" by simp
  next
    fix m q assume a: "m < length ?st' \<and> ?st' ! m = Some q"
    then have m: "m < length st" by simp
    show "rightmost q v'"
    proof (cases "m \<le> i")
      case True
      with a m have "st ! m = Some q" by (simp add: nth)
      from below [OF True this] have "prefix q (p @ [length w])" by simp
      from rightmost_prefix [OF rnew this] show ?thesis .
    next
      case False
      with a m have "m = Suc i" and "q = p @ [length w]"
        by (auto simp: nth split: if_splits)
      with rnew show ?thesis by simp
    qed
  next
    fix a b q r
    assume h: "a < b \<and> b < length ?st' \<and> ?st' ! a = Some q \<and> ?st' ! b = Some r"
    then have b: "b < length st" and a: "a < length st" by simp_all
    from h a have aq: "a \<le> i \<and> st ! a = Some q \<or> a = Suc i"
      by (auto simp: nth split: if_splits)
    from h b have br: "b \<le> i \<and> st ! b = Some r \<or> b = Suc i \<and> r = p @ [length w]"
      by (auto simp: nth split: if_splits)
    from h have ab: "a < b" by simp
    show "prefix q r"
    proof (cases "b \<le> i")
      case True
      with br aq ab have "st ! a = Some q" "st ! b = Some r" by auto
      from ord [OF ab b this] show ?thesis .
    next
      case False
      with br have b': "b = Suc i" and r: "r = p @ [length w]" by auto
      with aq ab have "a \<le> i" "st ! a = Some q" by auto
      from below [OF this] r show ?thesis by simp
    qed
  qed
  have "flatten_item x = [(name x, offset x)]"
    using leaf by (cases x) simp
  moreover have "node_count_item x = Suc 0"
    using leaf by (cases x) simp
  ultimately show ?thesis
    using res inv' fl nc by simp
qed

section \<open>The headings builder\<close>

lemma heading_step_dropped:
  "\<not> heading_in_range m \<Longrightarrow> heading_step s m = Inr s"
  by (auto simp: heading_step_def heading_in_range_def Let_def)

lemma heading_step_inv:
  assumes inv: "spine_inv (v, st)" and len: "length st = nat (MAX_HEADING_LEVELS + 1)"
    and ok: "heading_in_range m"
  shows "\<exists>v' st'. heading_step (v, st) m = Inr (v', st') \<and> spine_inv (v', st')
           \<and> length st' = length st
           \<and> flatten v' = flatten v @ [heading_pair m]
           \<and> node_count v' = Suc (node_count v)"
proof -
  let ?i = "nat (marker_level m - 1)"
  from ok have lv: "1 \<le> marker_level m" "marker_level m \<le> MAX_HEADING_LEVELS"
    by (auto simp: heading_in_range_def)
  then have k: "nat (marker_level m) = Suc ?i" and "Suc ?i < length st"
    using len by auto
  from attach_inv [OF inv this(2), of "Toc_item (marker_text m) [] (marker_pos m) []"] k lv
  show ?thesis
    by (simp add: heading_step_def heading_pair_def Let_def)
qed

lemma heading_loop_inv:
  assumes "spine_inv (v, st)" and "length st = nat (MAX_HEADING_LEVELS + 1)"
  shows "\<exists>v' st'. heading_loop (v, st) ms = Inr (v', st') \<and> spine_inv (v', st')
           \<and> flatten v' = flatten v @ map heading_pair (filter heading_in_range ms)
           \<and> node_count v' = node_count v + length (filter heading_in_range ms)"
  using assms
proof (induction ms arbitrary: v st)
  case Nil
  then show ?case by simp
next
  case (Cons m ms)
  show ?case
  proof (cases "heading_in_range m")
    case True
    from heading_step_inv [OF Cons.prems True] obtain v1 st1 where
      s: "heading_step (v, st) m = Inr (v1, st1)" "spine_inv (v1, st1)"
      "length st1 = length st" "flatten v1 = flatten v @ [heading_pair m]"
      "node_count v1 = Suc (node_count v)"
      by blast
    from Cons.IH [OF s(2)] s(3) Cons.prems(2) obtain v' st' where
      "heading_loop (v1, st1) ms = Inr (v', st')" "spine_inv (v', st')"
      "flatten v' = flatten v1 @ map heading_pair (filter heading_in_range ms)"
      "node_count v' = node_count v1 + length (filter heading_in_range ms)"
      by auto
    with s True show ?thesis by simp
  next
    case False
    from Cons.IH [OF Cons.prems] heading_step_dropped [OF False] False
    show ?thesis by simp
  qed
qed

lemma spine_inv_initial: "0 \<le> n \<Longrightarrow> spine_inv (v, initial_stacks n)"
  by (auto simp: spine_inv_def initial_stacks_def nth_list_update)

lemma length_initial_stacks [simp]: "length (initial_stacks n) = nat (n + 1)"
  by (simp add: initial_stacks_def)

lemma flatten_Nil [simp]: "flatten [] = []"
  by (simp add: flatten_def)

lemma node_count_Nil [simp]: "node_count [] = 0"
  by (simp add: node_count_def)

lemma build_toc_from_headings_result:
  "\<exists>result. build_toc_from_headings ms = Inr result
     \<and> flatten result = map heading_pair (filter heading_in_range ms)
     \<and> node_count result = length (filter heading_in_range ms)"
proof (cases "ms = []")
  case True
  then show ?thesis by (simp add: build_toc_from_headings_def)
next
  case False
  have "spine_inv ([], initial_stacks MAX_HEADING_LEVELS)"
    by (rule spine_inv_initial) (simp add: MAX_HEADING_LEVELS_def)
  from heading_loop_inv [OF this, of ms] False show ?thesis
    by (auto simp: build_toc_from_headings_def)
qed

text \<open>
  Claim C2. For every list of heading markers, \<open>build_toc_from_headings\<close> returns a forest
  (no fault), and the pre-order traversal of that forest is the list of (text, position)
  pairs of the markers whose level lies in 1 .. \<open>MAX_HEADING_LEVELS\<close>, in input order:
  markers out of range are absent, no marker in range is lost or duplicated.
\<close>

theorem build_toc_from_headings_preorder:
  "\<exists>result. build_toc_from_headings heading_markers = Inr result \<and>
     flatten result =
       map (\<lambda>m. (marker_text m, marker_pos m))
         (filter (\<lambda>m. 1 \<le> marker_level m \<and> marker_level m \<le> MAX_HEADING_LEVELS) heading_markers)"
proof -
  have "heading_in_range = (\<lambda>m. 1 \<le> marker_level m \<and> marker_level m \<le> MAX_HEADING_LEVELS)"
    by (auto simp: heading_in_range_def fun_eq_iff)
  moreover have "heading_pair = (\<lambda>m. (marker_text m, marker_pos m))"
    by (simp add: heading_pair_def fun_eq_iff)
  ultimately show ?thesis
    using build_toc_from_headings_result [of heading_markers] by auto
qed

section \<open>Events out of range\<close>

lemma toc_step_dropped:
  "\<not> depth_in_range t \<Longrightarrow> toc_step s t = Inr s"
  by (auto simp: toc_step_def depth_in_range_def Let_def)

lemma heading_loop_append:
  "heading_loop s (xs @ ys) =
     (case heading_loop s xs of Inl e \<Rightarrow> Inl e | Inr s' \<Rightarrow> heading_loop s' ys)"
  by (induction xs arbitrary: s) (auto split: sum.splits)

lemma toc_loop_append:
  "toc_loop s (xs @ ys) =
     (case toc_loop s xs of Inl e \<Rightarrow> Inl e | Inr s' \<Rightarrow> toc_loop s' ys)"
  by (induction xs arbitrary: s) (auto split: sum.splits)

lemma heading_loop_skip:
  "\<not> heading_in_range m \<Longrightarrow> heading_loop s (xs @ m # ys) = heading_loop s (xs @ ys)"
  by (simp add: heading_loop_append heading_step_dropped split: sum.splits)

lemma toc_loop_skip:
  "\<not> depth_in_range t \<Longrightarrow> toc_loop s (xs @ t # ys) = toc_loop s (xs @ ys)"
  by (simp add: toc_loop_append toc_step_dropped split: sum.splits)

lemma heading_loop_filter:
  "heading_loop s (filter heading_in_range ms) = heading_loop s ms"
  by (induction ms arbitrary: s) (auto simp: heading_step_dropped split: sum.splits)

lemma toc_loop_filter:
  "toc_loop s (filter depth_in_range ts) = toc_loop s ts"
  by (induction ts arbitrary: s) (auto simp: toc_step_dropped split: sum.splits)

lemma build_toc_from_headings_loop:
  "build_toc_from_headings ms =
     map_sum id fst (heading_loop ([], initial_stacks MAX_HEADING_LEVELS) ms)"
  by (simp add: build_toc_from_headings_def)

lemma populate_toc_items_loop:
  "populate_toc_items v ts = map_sum id fst (toc_loop (v, initial_stacks MAX_DEPTH) ts)"
  by (simp add: populate_toc_items_def)

text \<open>
  Claim C7. A heading marker whose level is outside 1 .. \<open>MAX_HEADING_LEVELS\<close>, and a flat
  entry whose depth is outside 0 .. 32, leaves the loop state as it is (the build goes on),
  and the builder returns the same result with the event inserted anywhere or removed: the
  result is that of the events in range alone.
\<close>

theorem out_of_range_events_dropped:
  "(\<not> (1 \<le> marker_level m \<and> marker_level m \<le> MAX_HEADING_LEVELS) \<longrightarrow>
      heading_step s m = Inr s
      \<and> build_toc_from_headings (xs @ m # ys) = build_toc_from_headings (xs @ ys))
   \<and> (\<not> (0 \<le> ffi_depth t \<and> ffi_depth t \<le> 32) \<longrightarrow>
      toc_step s t = Inr s
      \<and> populate_toc_items v (as @ t # bs) = populate_toc_items v (as @ bs))
   \<and> build_toc_from_headings
        (filter (\<lambda>m. 1 \<le> marker_level m \<and> marker_level m \<le> MAX_HEADING_LEVELS) ms)
      = build_toc_from_headings ms
   \<and> populate_toc_items v (filter (\<lambda>t. 0 \<le> ffi_depth t \<and> ffi_depth t \<le> 32) ts)
      = populate_toc_items v ts"
proof -
  have h: "heading_in_range = (\<lambda>m. 1 \<le> marker_level m \<and> marker_level m \<le> MAX_HEADING_LEVELS)"
    by (auto simp: heading_in_range_def fun_eq_iff)
  have d: "depth_in_range = (\<lambda>t. 0 \<le> ffi_depth t \<and> ffi_depth t \<le> 32)"
    by (auto simp: depth_in_range_def MAX_DEPTH_def fun_eq_iff)
  have 1: "heading_step s m = Inr s
      \<and> build_toc_from_headings (xs @ m # ys) = build_toc_from_headings (xs @ ys)"
    if "\<not> heading_in_range m"
    using that by (simp add: build_toc_from_headings_loop heading_loop_skip heading_step_dropped)
  have 2: "toc_step s t = Inr s
      \<and> populate_toc_items v (as @ t # bs) = populate_toc_items v (as @ bs)"
    if "\<not> depth_in_range t"
    using that by (simp add: populate_toc_items_loop toc_loop_skip toc_step_dropped)
  have 3: "build_toc_from_headings (filter heading_in_range ms) = build_toc_from_headings ms"
    by (simp add: build_toc_from_headings_loop heading_loop_filter)
  have 4: "populate_toc_items v (filter depth_in_range ts) = populate_toc_items v ts"
    by (simp add: populate_toc_items_loop toc_loop_filter)
  from 1 2 3 4 show ?thesis
    unfolding h d by blast
qed

theorem out_of_range_events_dropped_witness:
  "heading_step ([], initial_stacks MAX_HEADING_LEVELS) (Heading_marker ''x'' 5 7)
     = Inr ([], initial_stacks MAX_HEADING_LEVELS)
   \<and> build_toc_from_headings
        ([Heading_marker ''a'' 1 1] @ Heading_marker ''x'' 5 7 # [Heading_marker ''b'' 9 2])
      = build_toc_from_headings ([Heading_marker ''a'' 1 1] @ [Heading_marker ''b'' 9 2])
   \<and> build_toc_from_headings ([Heading_marker ''a'' 1 1] @ [Heading_marker ''b'' 9 2])
      = Inr [Toc_item ''a'' [] 1 [Toc_item ''b'' [] 9 []]]
   \<and> populate_toc_items []
        ([Ffi_toc_item ''a'' ''r'' 1 0] @ Ffi_toc_item ''x'' [] 5 33 # [Ffi_toc_item ''b'' [] 9 1])
      = populate_toc_items [] ([Ffi_toc_item ''a'' ''r'' 1 0] @ [Ffi_toc_item ''b'' [] 9 1])
   \<and> populate_toc_items [] ([Ffi_toc_item ''a'' ''r'' 1 0] @ [Ffi_toc_item ''b'' [] 9 1])
      = Inr [Toc_item ''a'' ''r'' 1 [Toc_item ''b'' [] 9 []]]"
proof -
  have h: "\<not> (1 \<le> marker_level (Heading_marker ''x'' 5 7)
      \<and> marker_level (Heading_marker ''x'' 5 7) \<le> MAX_HEADING_LEVELS)"
    by (simp add: MAX_HEADING_LEVELS_def)
  have d: "\<not> (0 \<le> ffi_depth (Ffi_toc_item ''x'' [] 5 33)
      \<and> ffi_depth (Ffi_toc_item ''x'' [] 5 33) \<le> 32)"
    by simp
  have b: "build_toc_from_headings ([Heading_marker ''a'' 1 1] @ [Heading_marker ''b'' 9 2])
      = Inr [Toc_item ''a'' [] 1 [Toc_item ''b'' [] 9 []]]"
    by code_simp
  have p: "populate_toc_items [] ([Ffi_toc_item ''a'' ''r'' 1 0] @ [Ffi_toc_item ''b'' [] 9 1])
      = Inr [Toc_item ''a'' ''r'' 1 [Toc_item ''b'' [] 9 []]]"
    by code_simp
  from out_of_range_events_dropped
    [of "Heading_marker ''x'' 5 7" "([], initial_stacks MAX_HEADING_LEVELS)"
      "[Heading_marker ''a'' 1 1]" "[Heading_marker ''b'' 9 2]"
      "Ffi_toc_item ''x'' [] 5 33" "[]" "[Ffi_toc_item ''a'' ''r'' 1 0]"
      "[Ffi_toc_item ''b'' [] 9 1]"]
    h d b p
  show ?thesis by simp
qed

section \<open>The store past the end of the stack array\<close>

text \<open>
  \<open>depth_stacks\<close> has \<open>MAX_DEPTH + 1\<close> = 33 slots, and an entry of depth 32 passes the range
  check, so \<open>depth_stacks[depth + 1]\<close> writes slot 33, past the end of the array.
\<close>

lemma attach_out_of_bounds:
  assumes inv: "spine_inv (v, st)" and i: "i < length st" and k: "length st \<le> k"
  shows "attach i k x (v, st) = Inl Out_of_bounds"
proof -
  from inv have st0: "st ! 0 = Some []"
    and rm: "\<And>m p. m < length st \<Longrightarrow> st ! m = Some p \<Longrightarrow> rightmost p v"
    by (auto simp: spine_inv_def)
  from scan_down_finds [OF st0 i] obtain j p where
    j: "j \<le> i" and sj: "st ! j = Some p" and scan: "scan_down st i = Inr (Some p)"
    by blast
  from rm [OF _ sj] j i have rp: "rightmost p v" by simp
  from rightmost_deref [OF rp] obtain w where w: "deref v p = Some w" by blast
  from push_back_rightmost [OF rp w, of x] obtain v' where "push_back v p x = Some v'"
    by blast
  with scan w k show ?thesis
    by (simp add: attach_def)
qed

lemma toc_step_depth_32:
  assumes "spine_inv (v, st)" and "length st = 33" and "ffi_depth t = 32"
  shows "toc_step (v, st) t = Inl Out_of_bounds"
  using attach_out_of_bounds [OF assms(1), of 32 33] assms(2,3)
  by (simp add: toc_step_def MAX_DEPTH_def Let_def)

section \<open>The shape of the built forest\<close>

lemma set_children_twice [simp]: "set_children (set_children t cs) ds = set_children t ds"
  by (cases t) simp

lemma deref_graft:
  "deref v p = Some w \<Longrightarrow> deref (graft v p xs) p = Some (w @ xs)"
proof (induction p arbitrary: v)
  case Nil
  then show ?case by simp
next
  case (Cons i p)
  then show ?case by (auto split: if_splits)
qed

lemma push_back_graft:
  "deref v p = Some w \<Longrightarrow> push_back v p x = Some (graft v p [x])"
proof (induction p arbitrary: v)
  case Nil
  then show ?case by simp
next
  case (Cons i p)
  then show ?case by (auto split: if_splits)
qed

lemma graft_graft:
  "deref v p = Some w \<Longrightarrow> graft (graft v p xs) p ys = graft v p (xs @ ys)"
proof (induction p arbitrary: v)
  case Nil
  then show ?case by simp
next
  case (Cons i p)
  then show ?case by (auto split: if_splits)
qed

lemma deref_graft_new:
  "deref v p = Some w \<Longrightarrow> deref (graft v p [x]) (p @ [length w]) = Some (children x)"
proof (induction p arbitrary: v)
  case Nil
  then show ?case by simp
next
  case (Cons i p)
  then show ?case by (auto split: if_splits)
qed

lemma graft_into_new:
  "deref v p = Some w \<Longrightarrow> children x = [] \<Longrightarrow>
     graft (graft v p [x]) (p @ [length w]) cs = graft v p [set_children x cs]"
proof (induction p arbitrary: v)
  case Nil
  then show ?case by (simp add: list_update_append)
next
  case (Cons i p)
  then show ?case by (auto split: if_splits)
qed

lemma scan_down_skip:
  assumes "st ! l = Some p" and "l \<le> i" and "i < length st"
    and "\<forall>j. l < j \<and> j \<le> i \<longrightarrow> st ! j = None"
  shows "scan_down st i = Inr (Some p)"
  using assms(2-4)
proof (induction i)
  case 0
  with assms(1) show ?case by simp
next
  case (Suc i)
  show ?case
  proof (cases "l = Suc i")
    case True
    with assms(1) Suc.prems show ?thesis by simp
  next
    case False
    with Suc.prems have "l \<le> i" "i < length st" "\<forall>j. l < j \<and> j \<le> i \<longrightarrow> st ! j = None"
      and "st ! Suc i = None"
      by auto
    with Suc.IH Suc.prems show ?thesis by simp
  qed
qed




lemma attach_at_slot:
  assumes sl: "st ! l = Some p" and lk: "l < k" and k: "k < length st"
    and gap: "\<forall>j. l < j \<and> j < k \<longrightarrow> st ! j = None"
    and w: "deref v p = Some w"
  shows "attach (k - 1) k x (v, st)
    = Inr (graft v p [x], clear_from (Suc k) (st[k := Some (p @ [length w])]))"
proof -
  from lk k gap have "scan_down st (k - 1) = Inr (Some p)"
    by (intro scan_down_skip [OF sl]) auto
  with w push_back_graft [OF w, of x] k show ?thesis
    by (simp add: attach_def)
qed

lemma graft_Nil: "deref v p = Some w \<Longrightarrow> graft v p [] = v"
proof (induction p arbitrary: v)
  case Nil
  then show ?case by simp
next
  case (Cons i p)
  then show ?case by (auto split: if_splits)
qed

lemma attach_all_append:
  "attach_all s (xs @ ys)
    = (case attach_all s xs of Inl f \<Rightarrow> Inl f | Inr s' \<Rightarrow> attach_all s' ys)"
  by (induction xs arbitrary: s) (auto split: sum.splits)

lemma attach_all_nest:
  assumes "st ! l = Some p" and "l < length st" and "deref v p = Some w"
    and "\<forall>e \<in> set es. l < fst e \<and> fst e < length st \<and> children (snd e) = []"
    and "es \<noteq> [] \<longrightarrow> (\<forall>j. l < j \<and> j < fst (hd es) \<longrightarrow> st ! j = None)"
  shows "\<exists>st'. attach_all (v, st) es = Inr (graft v p (nest es), st')
    \<and> length st' = length st \<and> (\<forall>j. j \<le> l \<longrightarrow> st' ! j = st ! j)"
  using assms
proof (induction es arbitrary: v st l p w rule: nest.induct)
  case 1
  then show ?case by (simp add: graft_Nil)
next
  case (2 e es)
  let ?k = "fst e"
  let ?x = "snd e"
  let ?inner = "takeWhile (\<lambda>d. ?k < fst d) es"
  let ?rest = "dropWhile (\<lambda>d. ?k < fst d) es"
  from "2.prems"(4) have lk: "l < ?k" and k: "?k < length st" and leaf: "children ?x = []"
    by simp_all
  from "2.prems"(5) have gap: "\<forall>j. l < j \<and> j < ?k \<longrightarrow> st ! j = None"
    by simp
  let ?v1 = "graft v p [?x]"
  let ?p1 = "p @ [length w]"
  let ?st1 = "clear_from (Suc ?k) (st[?k := Some ?p1])"
  have step: "attach (?k - 1) ?k ?x (v, st) = Inr (?v1, ?st1)"
    by (rule attach_at_slot [OF "2.prems"(1) lk k gap "2.prems"(3)])
  have len1: "length ?st1 = length st" by simp
  have nth1: "?st1 ! j = (if j < ?k then st ! j else if j = ?k then Some ?p1 else None)"
    if "j < length st" for j
    using that k by (auto simp: nth_clear_from nth_list_update)
  \<comment> \<open>the events nested below \<open>e\<close>\<close>
  have in1: "\<forall>d \<in> set ?inner. ?k < fst d \<and> fst d < length ?st1 \<and> children (snd d) = []"
    using "2.prems"(4) by (auto dest: set_takeWhileD)
  have gap1: "?inner \<noteq> [] \<longrightarrow> (\<forall>j. ?k < j \<and> j < fst (hd ?inner) \<longrightarrow> ?st1 ! j = None)"
  proof (intro impI allI)
    fix j assume ne: "?inner \<noteq> []" and j: "?k < j \<and> j < fst (hd ?inner)"
    from ne have "hd ?inner \<in> set ?inner" by simp
    with in1 have "fst (hd ?inner) < length st" by simp
    with j have "j < length st" by simp
    from nth1 [OF this] j show "?st1 ! j = None" by simp
  qed
  have sk: "?st1 ! ?k = Some ?p1"
    using nth1 [OF k] by simp
  have d1: "deref ?v1 ?p1 = Some []"
    using deref_graft_new [OF "2.prems"(3), of ?x] leaf by simp
  from "2.IH"(1) [OF sk _ d1 in1 gap1] k obtain st2 where
    a2: "attach_all (?v1, ?st1) ?inner = Inr (graft ?v1 ?p1 (nest ?inner), st2)"
    and len2: "length st2 = length st"
    and keep2: "\<forall>j. j \<le> ?k \<longrightarrow> st2 ! j = ?st1 ! j"
    by auto
  let ?node = "set_children ?x (nest ?inner)"
  let ?v2 = "graft v p [?node]"
  have v2: "graft ?v1 ?p1 (nest ?inner) = ?v2"
    by (rule graft_into_new [OF "2.prems"(3) leaf])
  \<comment> \<open>the events after the subtree of \<open>e\<close>\<close>
  have low: "st2 ! j = st ! j" if "j < ?k" for j
    using keep2 nth1 [of j] that k by simp
  have sl2: "st2 ! l = Some p"
    using low [OF lk] "2.prems"(1) by simp
  have l2: "l < length st2"
    using "2.prems"(2) len2 by simp
  have d2: "deref ?v2 p = Some (w @ [?node])"
    by (rule deref_graft [OF "2.prems"(3)])
  have in2: "\<forall>d \<in> set ?rest. l < fst d \<and> fst d < length st2 \<and> children (snd d) = []"
    using "2.prems"(4) len2 by (auto dest: set_dropWhileD)
  have gap2: "?rest \<noteq> [] \<longrightarrow> (\<forall>j. l < j \<and> j < fst (hd ?rest) \<longrightarrow> st2 ! j = None)"
  proof (intro impI allI)
    fix j assume ne: "?rest \<noteq> []" and j: "l < j \<and> j < fst (hd ?rest)"
    from ne have "\<not> ?k < fst (hd ?rest)"
      by (rule hd_dropWhile)
    with j have "j < ?k" by simp
    from low [OF this] gap j this show "st2 ! j = None" by simp
  qed
  from "2.IH"(2) [OF sl2 l2 d2 in2 gap2] obtain st3 where
    a3: "attach_all (?v2, st2) ?rest = Inr (graft ?v2 p (nest ?rest), st3)"
    and len3: "length st3 = length st2"
    and keep3: "\<forall>j. j \<le> l \<longrightarrow> st3 ! j = st2 ! j"
    by auto
  have v3: "graft ?v2 p (nest ?rest) = graft v p (nest (e # es))"
    using graft_graft [OF "2.prems"(3), of "[?node]" "nest ?rest"] by simp
  have "attach_all (v, st) (e # es) = attach_all (v, st) (e # (?inner @ ?rest))"
    by simp
  also have "\<dots> = (case attach_all (?v1, ?st1) ?inner of Inl f \<Rightarrow> Inl f
         | Inr s' \<Rightarrow> attach_all s' ?rest)"
    using step by (simp add: attach_all_append del: takeWhile_dropWhile_id)
  finally have split: "attach_all (v, st) (e # es)
      = (case attach_all (?v1, ?st1) ?inner of Inl f \<Rightarrow> Inl f
         | Inr s' \<Rightarrow> attach_all s' ?rest)" .
  from split a2 v2 a3 v3
  have res: "attach_all (v, st) (e # es) = Inr (graft v p (nest (e # es)), st3)"
    by (simp del: nest.simps attach_all.simps)
  have keep: "\<forall>j. j \<le> l \<longrightarrow> st3 ! j = st ! j"
    using keep3 low lk by auto
  have len: "length st3 = length st"
    using len3 len2 by simp
  from res len keep show ?case
    by (intro exI [of _ st3] conjI)
qed




lemma heading_loop_attach_all:
  "heading_loop s ms = attach_all s (map heading_event (filter heading_in_range ms))"
proof (induction ms arbitrary: s)
  case Nil
  then show ?case by simp
next
  case (Cons m ms)
  show ?case
  proof (cases "heading_in_range m")
    case True
    then have "1 \<le> marker_level m" by (simp add: heading_in_range_def)
    then have "nat (marker_level m - 1) = nat (marker_level m) - 1" by simp
    with True Cons.IH show ?thesis
      by (simp add: heading_step_def heading_in_range_def heading_event_def Let_def
          split: sum.splits)
  next
    case False
    with Cons.IH show ?thesis
      by (simp add: heading_step_dropped)
  qed
qed

lemma toc_loop_attach_all:
  "toc_loop s ts = attach_all s (map toc_event (filter depth_in_range ts))"
proof (induction ts arbitrary: s)
  case Nil
  then show ?case by simp
next
  case (Cons t ts)
  show ?case
  proof (cases "depth_in_range t")
    case True
    then have "0 \<le> ffi_depth t" by (simp add: depth_in_range_def)
    then have "nat (ffi_depth t + 1) - 1 = nat (ffi_depth t)" by simp
    with True Cons.IH show ?thesis
      by (simp add: toc_step_def depth_in_range_def toc_event_def Let_def split: sum.splits)
  next
    case False
    with Cons.IH show ?thesis
      by (simp add: toc_step_dropped)
  qed
qed

lemma initial_stacks_nth:
  "0 \<le> n \<Longrightarrow> j < nat (n + 1) \<Longrightarrow>
     initial_stacks n ! j = (if j = 0 then Some [] else None)"
  by (simp add: initial_stacks_def nth_list_update)

text \<open>
  The headings builder returns the forest \<open>nest\<close> of the markers in range, for every input.
\<close>

theorem build_toc_from_headings_nest:
  "build_toc_from_headings ms = Inr (nest (map heading_event (filter heading_in_range ms)))"
proof -
  let ?es = "map heading_event (filter heading_in_range ms)"
  let ?st = "initial_stacks MAX_HEADING_LEVELS"
  have 0: "?st ! 0 = Some []" and len: "length ?st = 7"
    by (simp_all add: initial_stacks_nth MAX_HEADING_LEVELS_def)
  have ev: "\<forall>e \<in> set ?es. 0 < fst e \<and> fst e < length ?st \<and> children (snd e) = []"
    by (auto simp: heading_event_def heading_in_range_def MAX_HEADING_LEVELS_def)
  have gap: "?es \<noteq> [] \<longrightarrow> (\<forall>j. 0 < j \<and> j < fst (hd ?es) \<longrightarrow> ?st ! j = None)"
  proof (intro impI allI)
    fix j assume ne: "?es \<noteq> []" and j: "0 < j \<and> j < fst (hd ?es)"
    from ne have "hd ?es \<in> set ?es" by (rule hd_in_set)
    with ev have "fst (hd ?es) < 7" unfolding len by blast
    with j show "?st ! j = None"
      by (simp add: initial_stacks_nth MAX_HEADING_LEVELS_def)
  qed
  have pos: "0 < length ?st" unfolding len by simp
  have d: "deref [] [] = Some []" by simp
  from attach_all_nest [OF 0 pos d ev gap]
  obtain st' where "attach_all ([], ?st) ?es = Inr (nest ?es, st')"
    by auto
  then show ?thesis
    by (simp add: build_toc_from_headings_loop heading_loop_attach_all)
qed

text \<open>
  The flat builder appends the forest \<open>nest\<close> of the entries in range to \<open>toc_items\<close>,
  provided no entry has depth 32.
\<close>

theorem populate_toc_items_nest:
  assumes "\<forall>t \<in> set ts. ffi_depth t \<noteq> 32"
  shows "populate_toc_items v ts = Inr (v @ nest (map toc_event (filter depth_in_range ts)))"
proof -
  let ?es = "map toc_event (filter depth_in_range ts)"
  let ?st = "initial_stacks MAX_DEPTH"
  have 0: "?st ! 0 = Some []" and len: "length ?st = 33"
    by (simp_all add: initial_stacks_nth MAX_DEPTH_def)
  have ev: "\<forall>e \<in> set ?es. 0 < fst e \<and> fst e < length ?st \<and> children (snd e) = []"
    using assms by (auto simp: toc_event_def depth_in_range_def MAX_DEPTH_def)
  have gap: "?es \<noteq> [] \<longrightarrow> (\<forall>j. 0 < j \<and> j < fst (hd ?es) \<longrightarrow> ?st ! j = None)"
  proof (intro impI allI)
    fix j assume ne: "?es \<noteq> []" and j: "0 < j \<and> j < fst (hd ?es)"
    from ne have "hd ?es \<in> set ?es" by (rule hd_in_set)
    with ev have "fst (hd ?es) < 33" unfolding len by blast
    with j show "?st ! j = None"
      by (simp add: initial_stacks_nth MAX_DEPTH_def)
  qed
  have pos: "0 < length ?st" unfolding len by simp
  have d: "deref v [] = Some v" by simp
  from attach_all_nest [OF 0 pos d ev gap]
  obtain st' where "attach_all (v, ?st) ?es = Inr (v @ nest ?es, st')"
    by auto
  then show ?thesis
    by (simp add: populate_toc_items_loop toc_loop_attach_all)
qed

lemma parents_Nil [simp]: "parents par [] = []"
  by (simp add: parents_def)

lemma parents_Cons [simp]: "parents par (t # ts) = parents_item par t @ parents par ts"
  by (simp add: parents_def)

lemma parents_item_set_children:
  "parents_item par (set_children x cs) = (label x, par) # parents (Some (label x)) cs"
  by (cases x) (simp add: parents_def label_def)

lemma expected_parents_append:
  "expected_parents earlier (xs @ ys)
    = expected_parents earlier xs @ expected_parents (rev xs @ earlier) ys"
  by (induction xs arbitrary: earlier) simp_all

lemma nearest_smaller_skip:
  "\<forall>d \<in> set xs. k \<le> fst d \<Longrightarrow> nearest_smaller (xs @ ys) k = nearest_smaller ys k"
  by (induction xs) auto

lemma parents_nest:
  assumes "\<forall>e \<in> set es. k0 < fst e"
    and "es \<noteq> [] \<longrightarrow> (\<forall>l. k0 < l \<and> l \<le> fst (hd es) \<longrightarrow> nearest_smaller earlier l = par)"
  shows "parents par (nest es) = expected_parents earlier es"
  using assms
proof (induction es arbitrary: k0 earlier par rule: nest.induct)
  case 1
  then show ?case by simp
next
  case (2 e es)
  let ?k = "fst e"
  let ?inner = "takeWhile (\<lambda>d. ?k < fst d) es"
  let ?rest = "dropWhile (\<lambda>d. ?k < fst d) es"
  from "2.prems" have k0: "k0 < ?k" and here: "nearest_smaller earlier ?k = par"
    by simp_all
  have i1: "\<forall>d \<in> set ?inner. ?k < fst d"
    by (auto dest: set_takeWhileD)
  have i2: "?inner \<noteq> [] \<longrightarrow>
      (\<forall>l. ?k < l \<and> l \<le> fst (hd ?inner) \<longrightarrow> nearest_smaller (e # earlier) l = Some (label (snd e)))"
    by simp
  from "2.IH"(1) [OF i1 i2]
  have inner: "parents (Some (label (snd e))) (nest ?inner) = expected_parents (e # earlier) ?inner" .
  have r1: "\<forall>d \<in> set ?rest. k0 < fst d"
    using "2.prems"(1) by (auto dest: set_dropWhileD)
  have r2: "?rest \<noteq> [] \<longrightarrow>
      (\<forall>l. k0 < l \<and> l \<le> fst (hd ?rest) \<longrightarrow> nearest_smaller (rev ?inner @ e # earlier) l = par)"
  proof (intro impI allI)
    fix l assume ne: "?rest \<noteq> []" and l: "k0 < l \<and> l \<le> fst (hd ?rest)"
    from ne have "\<not> ?k < fst (hd ?rest)" by (rule hd_dropWhile)
    with l have lk: "l \<le> ?k" by simp
    with i1 have "\<forall>d \<in> set (rev ?inner @ [e]). l \<le> fst d" by auto
    from nearest_smaller_skip [OF this, of earlier]
    have "nearest_smaller (rev ?inner @ e # earlier) l = nearest_smaller earlier l" by simp
    with "2.prems"(2) l lk show "nearest_smaller (rev ?inner @ e # earlier) l = par" by simp
  qed
  from "2.IH"(2) [OF r1 r2]
  have rest: "parents par (nest ?rest) = expected_parents (rev ?inner @ e # earlier) ?rest" .
  have "expected_parents earlier (e # es)
      = (label (snd e), par) # expected_parents (e # earlier) (?inner @ ?rest)"
    using here by simp
  also have "\<dots> = (label (snd e), par) # expected_parents (e # earlier) ?inner
        @ expected_parents (rev ?inner @ e # earlier) ?rest"
    by (simp only: expected_parents_append)
  finally show ?case
    using inner rest by (simp add: parents_item_set_children)
qed

text \<open>
  In the forest the headings builder returns, the nodes in pre-order are the markers in
  range in arrival order, and the parent of each node is the nearest preceding marker in
  range of strictly smaller level (a root when there is none). Siblings therefore stand in
  arrival order.
\<close>

theorem build_toc_from_headings_parents:
  "\<exists>result. build_toc_from_headings ms = Inr result
     \<and> parents None result = expected_parents [] (map heading_event (filter heading_in_range ms))"
proof -
  let ?es = "map heading_event (filter heading_in_range ms)"
  have "\<forall>e \<in> set ?es. 0 < fst e"
    by (auto simp: heading_event_def heading_in_range_def)
  then have "parents None (nest ?es) = expected_parents [] ?es"
    by (rule parents_nest) simp
  with build_toc_from_headings_nest [of ms] show ?thesis by simp
qed

lemma build_toc_from_headings_example:
  "build_toc_from_headings
     [Heading_marker ''a'' 1 1, Heading_marker ''b'' 2 3, Heading_marker ''c'' 3 2,
      Heading_marker ''d'' 4 3, Heading_marker ''e'' 5 9, Heading_marker ''f'' 6 1]
   = Inr [Toc_item ''a'' [] 1
            [Toc_item ''b'' [] 2 [], Toc_item ''c'' [] 3 [Toc_item ''d'' [] 4 []]],
          Toc_item ''f'' [] 6 []]"
  by code_simp

text \<open>The same for the flat builder and depths, provided no entry has depth 32.\<close>

lemma parents_append: "parents par (v @ w) = parents par v @ parents par w"
  by (simp add: parents_def)

theorem populate_toc_items_parents:
  assumes "\<forall>t \<in> set ts. ffi_depth t \<noteq> 32"
  shows "\<exists>result. populate_toc_items v ts = Inr result
     \<and> parents None result
       = parents None v @ expected_parents [] (map toc_event (filter depth_in_range ts))"
proof -
  let ?es = "map toc_event (filter depth_in_range ts)"
  have "\<forall>e \<in> set ?es. 0 < fst e"
    by (auto simp: toc_event_def depth_in_range_def)
  then have "parents None (nest ?es) = expected_parents [] ?es"
    by (rule parents_nest) simp
  with populate_toc_items_nest [OF assms, of v] show ?thesis
    by (simp add: parents_append)
qed

lemma toc_loop_fault:
  assumes "spine_inv (v, st)" and "length st = 33" and "\<exists>t \<in> set ts. ffi_depth t = 32"
  shows "toc_loop (v, st) ts = Inl Out_of_bounds"
  using assms
proof (induction ts arbitrary: v st)
  case Nil
  then show ?case by simp
next
  case (Cons t ts)
  show ?case
  proof (cases "ffi_depth t = 32")
    case True
    from toc_step_depth_32 [OF Cons.prems(1,2) True] show ?thesis by simp
  next
    case False
    with Cons.prems(3) have later: "\<exists>t \<in> set ts. ffi_depth t = 32" by simp
    show ?thesis
    proof (cases "depth_in_range t")
      case True
      with False have d: "0 \<le> ffi_depth t" "ffi_depth t < 32"
        by (simp_all add: depth_in_range_def MAX_DEPTH_def)
      then have k: "nat (ffi_depth t + 1) = Suc (nat (ffi_depth t))"
        and "Suc (nat (ffi_depth t)) < length st"
        using Cons.prems(2) by simp_all
      from attach_inv [OF Cons.prems(1) this(2),
          of "Toc_item (ffi_name t) (ffi_reference t) (ffi_offset t) []"]
      obtain v' st' where "attach (nat (ffi_depth t)) (Suc (nat (ffi_depth t)))
          (Toc_item (ffi_name t) (ffi_reference t) (ffi_offset t) []) (v, st) = Inr (v', st')"
        and "spine_inv (v', st')" and "length st' = length st"
        by auto
      with Cons.IH [OF this(2) _ later] Cons.prems(2) k d show ?thesis
        by (simp add: toc_step_def MAX_DEPTH_def Let_def)
    next
      case False
      with Cons.IH [OF Cons.prems(1,2) later] show ?thesis
        by (simp add: toc_step_dropped)
    qed
  qed
qed

text \<open>
  An entry of depth 32 anywhere in the input makes the flat builder run out of bounds.
\<close>

theorem populate_toc_items_fault:
  assumes "t \<in> set ts" and "ffi_depth t = 32"
  shows "populate_toc_items v ts = Inl Out_of_bounds"
proof -
  have "spine_inv (v, initial_stacks MAX_DEPTH)"
    by (rule spine_inv_initial) (simp add: MAX_DEPTH_def)
  moreover have "length (initial_stacks MAX_DEPTH) = 33"
    by (simp add: MAX_DEPTH_def)
  ultimately have "toc_loop (v, initial_stacks MAX_DEPTH) ts = Inl Out_of_bounds"
    using assms by (intro toc_loop_fault) auto
  then show ?thesis
    by (simp add: populate_toc_items_loop)
qed

section \<open>The flat builder at depth 32\<close>

text \<open>
  Claim C1 at a failing input: two entries with increasing offsets and depths 0 and 32, both
  in the valid range. No forest is produced, so the second entry is not attached below the
  first. The claim holds for the headings builder (\<open>build_toc_from_headings_parents\<close>) and
  for the flat builder on inputs without an entry of depth 32
  (\<open>populate_toc_items_parents\<close>).
\<close>

theorem populate_toc_items_depth_32_no_forest:
  "populate_toc_items [] [Ffi_toc_item ''a'' [] 0 0, Ffi_toc_item ''b'' [] 1 32]
     = Inl Out_of_bounds"
  by code_simp

section \<open>The scan always finds a parent list\<close>

lemma heading_loop_reachable:
  assumes "spine_inv (v, st)" and "length st = nat (MAX_HEADING_LEVELS + 1)"
    and "heading_loop (v, st) ms = Inr (v', st')"
  shows "spine_inv (v', st') \<and> length st' = length st"
  using assms
proof (induction ms arbitrary: v st)
  case Nil
  then show ?case by simp
next
  case (Cons m ms)
  show ?case
  proof (cases "heading_in_range m")
    case True
    from heading_step_inv [OF Cons.prems(1,2) True] obtain v1 st1 where
      s: "heading_step (v, st) m = Inr (v1, st1)" "spine_inv (v1, st1)" "length st1 = length st"
      by blast
    with Cons.prems(3) have "heading_loop (v1, st1) ms = Inr (v', st')" by simp
    from Cons.IH [OF s(2) _ this] s(3) Cons.prems(2) show ?thesis by simp
  next
    case False
    with Cons.prems(3) have "heading_loop (v, st) ms = Inr (v', st')"
      by (simp add: heading_step_dropped)
    from Cons.IH [OF Cons.prems(1,2) this] show ?thesis .
  qed
qed

lemma toc_loop_reachable:
  assumes "spine_inv (v, st)" and "length st = nat (MAX_DEPTH + 1)"
    and "toc_loop (v, st) ts = Inr (v', st')"
  shows "spine_inv (v', st') \<and> length st' = length st"
  using assms
proof (induction ts arbitrary: v st)
  case Nil
  then show ?case by simp
next
  case (Cons t ts)
  from Cons.prems(2) have len: "length st = 33" by (simp add: MAX_DEPTH_def)
  show ?case
  proof (cases "depth_in_range t")
    case True
    then have d: "0 \<le> ffi_depth t" "ffi_depth t \<le> 32"
      by (simp_all add: depth_in_range_def MAX_DEPTH_def)
    have "ffi_depth t \<noteq> 32"
    proof
      assume "ffi_depth t = 32"
      from toc_step_depth_32 [OF Cons.prems(1) len this] Cons.prems(3) show False by simp
    qed
    with d have k: "nat (ffi_depth t + 1) = Suc (nat (ffi_depth t))"
      and "Suc (nat (ffi_depth t)) < length st"
      using len by simp_all
    from attach_inv [OF Cons.prems(1) this(2),
        of "Toc_item (ffi_name t) (ffi_reference t) (ffi_offset t) []"]
    obtain v1 st1 where s: "attach (nat (ffi_depth t)) (Suc (nat (ffi_depth t)))
          (Toc_item (ffi_name t) (ffi_reference t) (ffi_offset t) []) (v, st) = Inr (v1, st1)"
      "spine_inv (v1, st1)" "length st1 = length st"
      by auto
    with Cons.prems(3) k d have "toc_loop (v1, st1) ts = Inr (v', st')"
      by (simp add: toc_step_def MAX_DEPTH_def Let_def)
    from Cons.IH [OF s(2) _ this] s(3) Cons.prems(2) show ?thesis by simp
  next
    case False
    with Cons.prems(3) have "toc_loop (v, st) ts = Inr (v', st')"
      by (simp add: toc_step_dropped)
    from Cons.IH [OF Cons.prems(1,2) this] show ?thesis .
  qed
qed

lemma append_in_reachable_state:
  assumes inv: "spine_inv (v, st)" and i: "i < length st" and leaf: "children x = []"
  shows "\<exists>p w. scan_down st i = Inr (Some p) \<and> deref v p = Some w
    \<and> push_back v p x = Some (graft v p [x])
    \<and> node_count (graft v p [x]) = Suc (node_count v)"
proof -
  from inv have st0: "st ! 0 = Some []"
    and rm: "\<And>m p. m < length st \<Longrightarrow> st ! m = Some p \<Longrightarrow> rightmost p v"
    by (auto simp: spine_inv_def)
  from scan_down_finds [OF st0 i] obtain j p where
    j: "j \<le> i" and sj: "st ! j = Some p" and scan: "scan_down st i = Inr (Some p)"
    by blast
  from rm [OF _ sj] j i have rp: "rightmost p v" by simp
  from rightmost_deref [OF rp] obtain w where w: "deref v p = Some w" by blast
  from push_back_rightmost [OF rp w, of x] obtain v' where
    pb: "push_back v p x = Some v'" and nc: "node_count v' = node_count v + node_count_item x"
    by blast
  from push_back_graft [OF w, of x] pb have v': "v' = graft v p [x]" by simp
  from leaf have "node_count_item x = Suc 0" by (cases x) simp
  with scan w pb nc v' show ?thesis by auto
qed

text \<open>
  In every state either loop reaches without a fault, slot 0 of the stack array holds the
  root vector, and for every event in range the downward scan returns a non-null slot, so
  the \<open>nullptr\<close> fallback is never taken; the pointer found is valid, and the \<open>push_back\<close>
  through it appends the new item to the vector at that address and to no other (the
  forest gains one node). The headings builder returns a forest for every input, with one
  node for each marker in range. The flat builder does not: the store into the stack array
  that follows the append is out of bounds at depth 32 (\<open>populate_toc_items_fault\<close>), and
  no state is reached after it.
\<close>

theorem parent_list_always_found:
  "(heading_loop ([], initial_stacks MAX_HEADING_LEVELS) ms = Inr (v, st)
      \<and> 1 \<le> marker_level m \<and> marker_level m \<le> MAX_HEADING_LEVELS
    \<longrightarrow> st ! 0 = Some []
        \<and> (\<exists>p w. scan_down st (nat (marker_level m - 1)) = Inr (Some p)
              \<and> deref v p = Some w
              \<and> push_back v p (Toc_item (marker_text m) [] (marker_pos m) [])
                  = Some (graft v p [Toc_item (marker_text m) [] (marker_pos m) []])
              \<and> node_count (graft v p [Toc_item (marker_text m) [] (marker_pos m) []])
                  = Suc (node_count v)))
   \<and> (toc_loop (toc_items, initial_stacks MAX_DEPTH) ts = Inr (v, st)
      \<and> 0 \<le> ffi_depth t \<and> ffi_depth t \<le> MAX_DEPTH
    \<longrightarrow> st ! 0 = Some []
        \<and> (\<exists>p w. scan_down st (nat (ffi_depth t)) = Inr (Some p)
              \<and> deref v p = Some w
              \<and> push_back v p (Toc_item (ffi_name t) (ffi_reference t) (ffi_offset t) [])
                  = Some (graft v p [Toc_item (ffi_name t) (ffi_reference t) (ffi_offset t) []])
              \<and> node_count (graft v p [Toc_item (ffi_name t) (ffi_reference t) (ffi_offset t) []])
                  = Suc (node_count v)))
   \<and> (\<exists>result. build_toc_from_headings ms = Inr result
        \<and> node_count result
            = length (filter (\<lambda>m. 1 \<le> marker_level m \<and> marker_level m \<le> MAX_HEADING_LEVELS) ms))"
proof -
  have h: "st ! 0 = Some []
        \<and> (\<exists>p w. scan_down st (nat (marker_level m - 1)) = Inr (Some p)
              \<and> deref v p = Some w
              \<and> push_back v p (Toc_item (marker_text m) [] (marker_pos m) [])
                  = Some (graft v p [Toc_item (marker_text m) [] (marker_pos m) []])
              \<and> node_count (graft v p [Toc_item (marker_text m) [] (marker_pos m) []])
                  = Suc (node_count v))"
    if a: "heading_loop ([], initial_stacks MAX_HEADING_LEVELS) ms = Inr (v, st)"
      and r: "1 \<le> marker_level m \<and> marker_level m \<le> MAX_HEADING_LEVELS"
  proof -
    have "spine_inv ([], initial_stacks MAX_HEADING_LEVELS)"
      by (rule spine_inv_initial) (simp add: MAX_HEADING_LEVELS_def)
    from heading_loop_reachable [OF this _ a]
    have inv: "spine_inv (v, st)" and len: "length st = 7"
      by (simp_all add: MAX_HEADING_LEVELS_def)
    from inv have 0: "st ! 0 = Some []" by (simp add: spine_inv_def)
    from r have "nat (marker_level m - 1) < length st"
      unfolding len by (auto simp: MAX_HEADING_LEVELS_def)
    from append_in_reachable_state [OF inv this,
        of "Toc_item (marker_text m) [] (marker_pos m) []"] 0
    show ?thesis by simp
  qed
  have t: "st ! 0 = Some []
        \<and> (\<exists>p w. scan_down st (nat (ffi_depth t)) = Inr (Some p)
              \<and> deref v p = Some w
              \<and> push_back v p (Toc_item (ffi_name t) (ffi_reference t) (ffi_offset t) [])
                  = Some (graft v p [Toc_item (ffi_name t) (ffi_reference t) (ffi_offset t) []])
              \<and> node_count (graft v p [Toc_item (ffi_name t) (ffi_reference t) (ffi_offset t) []])
                  = Suc (node_count v))"
    if a: "toc_loop (toc_items, initial_stacks MAX_DEPTH) ts = Inr (v, st)"
      and r: "0 \<le> ffi_depth t \<and> ffi_depth t \<le> MAX_DEPTH"
  proof -
    have "spine_inv (toc_items, initial_stacks MAX_DEPTH)"
      by (rule spine_inv_initial) (simp add: MAX_DEPTH_def)
    from toc_loop_reachable [OF this _ a]
    have inv: "spine_inv (v, st)" and len: "length st = 33"
      by (simp_all add: MAX_DEPTH_def)
    from inv have 0: "st ! 0 = Some []" by (simp add: spine_inv_def)
    from r have "nat (ffi_depth t) < length st"
      unfolding len by (auto simp: MAX_DEPTH_def)
    from append_in_reachable_state [OF inv this,
        of "Toc_item (ffi_name t) (ffi_reference t) (ffi_offset t) []"] 0
    show ?thesis by simp
  qed
  have "heading_in_range = (\<lambda>m. 1 \<le> marker_level m \<and> marker_level m \<le> MAX_HEADING_LEVELS)"
    by (auto simp: heading_in_range_def fun_eq_iff)
  with build_toc_from_headings_result [of ms]
  have b: "\<exists>result. build_toc_from_headings ms = Inr result
        \<and> node_count result
            = length (filter (\<lambda>m. 1 \<le> marker_level m \<and> marker_level m \<le> MAX_HEADING_LEVELS) ms)"
    by auto
  from h t b show ?thesis by blast
qed

theorem parent_list_always_found_witness:
  "heading_loop ([], initial_stacks MAX_HEADING_LEVELS) [Heading_marker ''a'' 1 1]
     = Inr ([Toc_item ''a'' [] 1 []], [Some [], Some [0], None, None, None, None, None])
   \<and> (\<exists>p w. scan_down [Some [], Some [0], None, None, None, None, None] 2 = Inr (Some p)
          \<and> deref [Toc_item ''a'' [] 1 []] p = Some w
          \<and> push_back [Toc_item ''a'' [] 1 []] p (Toc_item ''b'' [] 9 [])
              = Some (graft [Toc_item ''a'' [] 1 []] p [Toc_item ''b'' [] 9 []]))
   \<and> toc_loop ([], initial_stacks MAX_DEPTH) [Ffi_toc_item ''a'' ''r'' 1 31]
     = Inr ([Toc_item ''a'' ''r'' 1 []], (initial_stacks MAX_DEPTH)[32 := Some [0]])
   \<and> (\<exists>p w. scan_down ((initial_stacks MAX_DEPTH)[32 := Some [0]]) 32 = Inr (Some p)
          \<and> deref [Toc_item ''a'' ''r'' 1 []] p = Some w
          \<and> push_back [Toc_item ''a'' ''r'' 1 []] p (Toc_item ''b'' [] 9 [])
              = Some (graft [Toc_item ''a'' ''r'' 1 []] p [Toc_item ''b'' [] 9 []]))"
proof -
  let ?st = "[Some [], Some [0], None, None, None, None, None] :: stacks"
  let ?m = "Heading_marker ''b'' 9 3"
  let ?t = "Ffi_toc_item ''b'' [] 9 32"
  have run: "heading_loop ([], initial_stacks MAX_HEADING_LEVELS) [Heading_marker ''a'' 1 1]
     = Inr ([Toc_item ''a'' [] 1 []], ?st)"
    by code_simp
  have r: "1 \<le> marker_level ?m \<and> marker_level ?m \<le> MAX_HEADING_LEVELS"
    by (simp add: MAX_HEADING_LEVELS_def)
  have run': "toc_loop ([], initial_stacks MAX_DEPTH) [Ffi_toc_item ''a'' ''r'' 1 31]
     = Inr ([Toc_item ''a'' ''r'' 1 []], (initial_stacks MAX_DEPTH)[32 := Some [0]])"
    by code_simp
  have r': "0 \<le> ffi_depth ?t \<and> ffi_depth ?t \<le> MAX_DEPTH"
    by (simp add: MAX_DEPTH_def)
  from parent_list_always_found
    [of "[Heading_marker ''a'' 1 1]" "[Toc_item ''a'' [] 1 []]" ?st ?m, THEN conjunct1, rule_format,
      OF conjI, OF run r]
  have 1: "\<exists>p w. scan_down ?st 2 = Inr (Some p)
          \<and> deref [Toc_item ''a'' [] 1 []] p = Some w
          \<and> push_back [Toc_item ''a'' [] 1 []] p (Toc_item ''b'' [] 9 [])
              = Some (graft [Toc_item ''a'' [] 1 []] p [Toc_item ''b'' [] 9 []])"
    by auto
  from parent_list_always_found
    [of "[]" "[Toc_item ''a'' ''r'' 1 []]" "(initial_stacks MAX_DEPTH)[32 := Some [0]]" _
      "[]" "[Ffi_toc_item ''a'' ''r'' 1 31]" ?t, THEN conjunct2, THEN conjunct1, rule_format,
      OF conjI, OF run' r']
  have 2: "\<exists>p w. scan_down ((initial_stacks MAX_DEPTH)[32 := Some [0]]) 32 = Inr (Some p)
          \<and> deref [Toc_item ''a'' ''r'' 1 []] p = Some w
          \<and> push_back [Toc_item ''a'' ''r'' 1 []] p (Toc_item ''b'' [] 9 [])
              = Some (graft [Toc_item ''a'' ''r'' 1 []] p [Toc_item ''b'' [] 9 []])"
    by auto
  from run 1 run' 2 show ?thesis by blast
qed

text \<open>
  Claim C10 at a failing input of the flat builder: an entry of depth 32 followed by one of
  depth 0, both in the valid range. The store that follows the append of the first entry
  is past the end of the stack array, so no forest is produced and the second entry is
  appended to no children list. The headings builder, whose array has a slot for the index
  it writes, appends both markers at its deepest level and at level 1.
\<close>

theorem populate_toc_items_after_depth_32:
  "populate_toc_items [] [Ffi_toc_item ''a'' [] 0 32, Ffi_toc_item ''b'' [] 1 0]
     = Inl Out_of_bounds
   \<and> build_toc_from_headings [Heading_marker ''a'' 0 6, Heading_marker ''b'' 1 1]
     = Inr [Toc_item ''a'' [] 0 [], Toc_item ''b'' [] 1 []]"
  by code_simp

section \<open>The cleanup pass: collapse of a duplicated first child\<close>

lemma every_item_unfold:
  "every_item P t = (P t \<and> list_all (every_item P) (children t))"
  by (cases t) simp

lemma every_item_set_children:
  "every_item P (set_children t cs) = (P (set_children t cs) \<and> list_all (every_item P) cs)"
  by (cases t) simp

lemma name_set_children [simp]: "name (set_children t cs) = name t"
  by (cases t) simp

lemma ref_set_children [simp]: "ref (set_children t cs) = ref t"
  by (cases t) simp

lemma offset_set_children [simp]: "offset (set_children t cs) = offset t"
  by (cases t) simp

lemma collapses_set_children [simp]:
  "collapses (set_children a cs) (set_children b ds) = collapses a b"
  by (simp add: collapses_def)

lemma collapses_set_children_left [simp]:
  "collapses (set_children a cs) b = collapses a b"
  by (simp add: collapses_def)

lemma collapses_set_children_right [simp]:
  "collapses a (set_children b ds) = collapses a b"
  by (simp add: collapses_def)

lemma name_collapse_check [simp]: "name (collapse_check t) = name t"
proof (cases t)
  case (Toc_item n r off cs)
  then show ?thesis by (cases cs) simp_all
qed

lemma collapse_check_cases:
  "collapse_check t =
     (case children t of
        [] \<Rightarrow> t
      | first_child # siblings \<Rightarrow>
          if collapses t first_child
          then Toc_item (name t)
                 (if ref t = [] \<and> ref first_child \<noteq> [] then ref first_child else ref t)
                 (if ref t = [] \<and> ref first_child \<noteq> [] then offset first_child else offset t)
                 (children first_child @ siblings)
          else t)"
proof (cases t)
  case (Toc_item n r off cs)
  then show ?thesis by (cases cs) simp_all
qed

lemma collapse_check_id: "first_child_differs t \<Longrightarrow> collapse_check t = t"
  by (auto simp: collapse_check_cases first_child_differs_def split: list.splits)

lemma children_collapse_check_every:
  assumes "list_all (every_item P) (children t)"
  shows "list_all (every_item P) (children (collapse_check t))"
proof (cases "children t")
  case Nil
  with assms show ?thesis by (simp add: collapse_check_cases)
next
  case (Cons first_child siblings)
  with assms have "every_item P first_child" and s: "list_all (every_item P) siblings"
    by simp_all
  then have "list_all (every_item P) (children first_child)"
    by (simp add: every_item_unfold [of P first_child])
  with s Cons assms show ?thesis
    by (simp add: collapse_check_cases)
qed

lemma cleanup_toc_fixed:
  "list_all (every_item first_child_differs) forest \<Longrightarrow> cleanup_toc forest = forest"
proof (induction forest rule: cleanup_toc.induct)
  case 1
  then show ?case by simp
next
  case (2 item items)
  from "2.prems" have d: "first_child_differs item"
    and c: "list_all (every_item first_child_differs) (children item)"
    and r: "list_all (every_item first_child_differs) items"
    by (simp_all add: every_item_unfold [of _ item])
  from d have id: "collapse_check item = item" by (rule collapse_check_id)
  from "2.IH"(1) c id have "cleanup_toc (children item) = children item" by simp
  moreover from "2.IH"(2) r have "cleanup_toc items = items" by simp
  ultimately show ?case using id by simp
qed

lemma cleanup_toc_Cons_head:
  "cleanup_toc (t # ts) = c # cs \<Longrightarrow> name c = name t \<and> ref c = ref (collapse_check t)"
  by auto

lemma cleanup_toc_settles:
  "list_all (every_item settled_at) forest
     \<Longrightarrow> list_all (every_item first_child_differs) (cleanup_toc forest)"
proof (induction forest rule: cleanup_toc.induct)
  case 1
  then show ?case by simp
next
  case (2 item items)
  let ?item' = "collapse_check item"
  let ?out = "set_children ?item' (cleanup_toc (children ?item'))"
  from "2.prems" have s: "settled_at item"
    and c: "list_all (every_item settled_at) (children item)"
    and r: "list_all (every_item settled_at) items"
    by (simp_all add: every_item_unfold [of _ item])
  from children_collapse_check_every [OF c]
  have c': "list_all (every_item settled_at) (children ?item')" .
  from "2.IH"(1) [OF c']
  have sub: "list_all (every_item first_child_differs) (cleanup_toc (children ?item'))" .
  have top: "first_child_differs ?out"
  proof (cases "children ?item'")
    case Nil
    then show ?thesis by (simp add: first_child_differs_def)
  next
    case (Cons next_child rest)
    with s have "\<not> collapses ?item' (collapse_check next_child)"
      by (simp add: settled_at_def)
    with Cons show ?thesis
      by (simp add: first_child_differs_def)
  qed
  from top sub have "every_item first_child_differs ?out"
    by (simp add: every_item_set_children)
  with "2.IH"(2) [OF r] show ?case by simp
qed

lemma cleanup_toc_map:
  "cleanup_toc items =
     map (\<lambda>item. set_children (collapse_check item) (cleanup_toc (children (collapse_check item))))
       items"
  by (induction items) simp_all

lemma ref_collapse_check:
  "ref (collapse_check t) =
     (case children t of
        [] \<Rightarrow> ref t
      | first_child # _ \<Rightarrow>
          if collapses t first_child \<and> ref t = [] \<and> ref first_child \<noteq> []
          then ref first_child else ref t)"
  by (simp add: collapse_check_cases split: list.splits)

lemma offset_collapse_check:
  "offset (collapse_check t) =
     (case children t of
        [] \<Rightarrow> offset t
      | first_child # _ \<Rightarrow>
          if collapses t first_child \<and> ref t = [] \<and> ref first_child \<noteq> []
          then offset first_child else offset t)"
  by (simp add: collapse_check_cases split: list.splits)

lemma children_collapse_check:
  "children (collapse_check t) =
     (case children t of
        [] \<Rightarrow> []
      | first_child # siblings \<Rightarrow>
          if collapses t first_child then children first_child @ siblings
          else first_child # siblings)"
  by (simp add: collapse_check_cases split: list.splits)

text \<open>
  Claim C5, as amended. \<open>cleanup_toc\<close> keeps the length of a vector, and for every item of
  a vector it is run on (the roots, and in turn the children of such an item as its check
  left them, so every item of the forest except a first child that its parent's collapse
  removes):
  when the item has a first child whose name equals its own without regard to case, and the
  references are equal or the item's is empty, the children of the result are the first
  child's children followed by the item's other children, cleaned up in turn, and the item
  adopts the first child's reference and offset exactly when its own reference is empty and
  the child's is not; otherwise name, reference and offset are unchanged and the children
  are the item's own, cleaned up in turn.
\<close>

theorem cleanup_toc_collapse:
  "length (cleanup_toc items) = length items \<and>
   (\<forall>i < length items.
      let item = items ! i; out = cleanup_toc items ! i
      in name out = name item \<and>
         (case children item of
            [] \<Rightarrow> out = item
          | first_child # siblings \<Rightarrow>
              if CmpNoCase_equal (name item) (name first_child)
                  \<and> (ref item = ref first_child \<or> ref item = [])
              then children out = cleanup_toc (children first_child @ siblings)
                   \<and> (if ref item = [] \<and> ref first_child \<noteq> []
                       then ref out = ref first_child \<and> offset out = offset first_child
                       else ref out = ref item \<and> offset out = offset item)
              else ref out = ref item \<and> offset out = offset item
                   \<and> children out = cleanup_toc (first_child # siblings)))"
proof (intro conjI allI impI)
  show "length (cleanup_toc items) = length items"
    by (simp add: cleanup_toc_map [of items])
next
  fix i assume i: "i < length items"
  let ?item = "items ! i"
  let ?out = "cleanup_toc items ! i"
  have out: "?out = set_children (collapse_check ?item)
      (cleanup_toc (children (collapse_check ?item)))"
    using i by (simp add: cleanup_toc_map [of items])
  show "let item = ?item; out = ?out
      in name out = name item \<and>
         (case children item of
            [] \<Rightarrow> out = item
          | first_child # siblings \<Rightarrow>
              if CmpNoCase_equal (name item) (name first_child)
                  \<and> (ref item = ref first_child \<or> ref item = [])
              then children out = cleanup_toc (children first_child @ siblings)
                   \<and> (if ref item = [] \<and> ref first_child \<noteq> []
                       then ref out = ref first_child \<and> offset out = offset first_child
                       else ref out = ref item \<and> offset out = offset item)
              else ref out = ref item \<and> offset out = offset item
                   \<and> children out = cleanup_toc (first_child # siblings))"
  proof (cases "children ?item")
    case Nil
    then have "collapse_check ?item = ?item"
      by (simp add: collapse_check_cases)
    moreover from Nil have "set_children ?item [] = ?item"
      by (cases ?item) simp
    ultimately show ?thesis
      using Nil out by (simp add: Let_def)
  next
    case (Cons first_child siblings)
    show ?thesis
    proof (cases "collapses ?item first_child")
      case True
      with Cons out show ?thesis
        unfolding Let_def
        by (simp add: ref_collapse_check offset_collapse_check children_collapse_check
            collapses_def [symmetric] del: cleanup_toc.simps)
    next
      case False
      with Cons out show ?thesis
        unfolding Let_def
        by (simp add: ref_collapse_check offset_collapse_check children_collapse_check
            collapses_def [symmetric] del: cleanup_toc.simps)
    qed
  qed
qed

theorem cleanup_toc_collapse_witness:
  "cleanup_toc
     [Toc_item ''Intro'' [] 0
        [Toc_item ''INTRO'' ''ch1'' 7 [Toc_item ''Part'' ''p'' 9 []], Toc_item ''Next'' ''n'' 20 []]]
   = [Toc_item ''Intro'' ''ch1'' 7 [Toc_item ''Part'' ''p'' 9 [], Toc_item ''Next'' ''n'' 20 []]]
   \<and> children (cleanup_toc
     [Toc_item ''Intro'' [] 0
        [Toc_item ''INTRO'' ''ch1'' 7 [Toc_item ''Part'' ''p'' 9 []], Toc_item ''Next'' ''n'' 20 []]]
       ! 0)
   = cleanup_toc ([Toc_item ''Part'' ''p'' 9 []] @ [Toc_item ''Next'' ''n'' 20 []])"
proof -
  let ?items = "[Toc_item ''Intro'' [] 0
        [Toc_item ''INTRO'' ''ch1'' 7 [Toc_item ''Part'' ''p'' 9 []], Toc_item ''Next'' ''n'' 20 []]]"
  have v: "cleanup_toc ?items
      = [Toc_item ''Intro'' ''ch1'' 7 [Toc_item ''Part'' ''p'' 9 [], Toc_item ''Next'' ''n'' 20 []]]"
    by code_simp
  have c: "CmpNoCase_equal ''Intro'' ''INTRO''"
    by code_simp
  have "0 < length ?items" by simp
  with cleanup_toc_collapse [of ?items] c
  have "children (cleanup_toc ?items ! 0)
      = cleanup_toc ([Toc_item ''Part'' ''p'' 9 []] @ [Toc_item ''Next'' ''n'' 20 []])"
    by (simp add: Let_def del: cleanup_toc.simps)
  with v show ?thesis by simp
qed

text \<open>
  Claim C5 as stated fails for an item that its parent's collapse removes: such an item is
  never examined itself. In the forest below the middle item (offset 2) satisfies the
  collapse condition against its first child (offset 3), yet the pass removes the middle
  item, as the first child of the root, and keeps the child of offset 3 with its own child
  \<open>x\<close> below it: the child is not removed and \<open>x\<close> is not spliced into the middle item's
  children.
\<close>

theorem cleanup_toc_removed_child_kept:
  "collapses (Toc_item ''A'' [] 2 [Toc_item ''A'' [] 3 [Toc_item ''x'' [] 4 []]])
     (Toc_item ''A'' [] 3 [Toc_item ''x'' [] 4 []])
   \<and> cleanup_toc
       [Toc_item ''A'' [] 1 [Toc_item ''A'' [] 2 [Toc_item ''A'' [] 3 [Toc_item ''x'' [] 4 []]]]]
     = [Toc_item ''A'' [] 1 [Toc_item ''A'' [] 3 [Toc_item ''x'' [] 4 []]]]"
  by code_simp

section \<open>The cleanup pass: running it twice\<close>

text \<open>
  Claim C6, as amended. For every forest in which every item is settled by one pass (after
  its own check it does not satisfy the collapse condition against its first child as that
  child stands after the child's own check), running \<open>cleanup_toc\<close> twice gives the same
  forest as running it once.
\<close>

theorem cleanup_toc_idempotent:
  "settled forest \<Longrightarrow> cleanup_toc (cleanup_toc forest) = cleanup_toc forest"
  unfolding settled_def by (rule cleanup_toc_fixed) (rule cleanup_toc_settles)

theorem cleanup_toc_idempotent_witness:
  "settled [Toc_item ''A'' [] 1 [Toc_item ''a'' ''x'' 2 [Toc_item ''B'' [] 3 []]]]
   \<and> cleanup_toc (cleanup_toc [Toc_item ''A'' [] 1 [Toc_item ''a'' ''x'' 2 [Toc_item ''B'' [] 3 []]]])
     = cleanup_toc [Toc_item ''A'' [] 1 [Toc_item ''a'' ''x'' 2 [Toc_item ''B'' [] 3 []]]]
   \<and> cleanup_toc [Toc_item ''A'' [] 1 [Toc_item ''a'' ''x'' 2 [Toc_item ''B'' [] 3 []]]]
     = [Toc_item ''A'' ''x'' 2 [Toc_item ''B'' [] 3 []]]"
proof -
  have s: "settled [Toc_item ''A'' [] 1 [Toc_item ''a'' ''x'' 2 [Toc_item ''B'' [] 3 []]]]"
    by code_simp
  have v: "cleanup_toc [Toc_item ''A'' [] 1 [Toc_item ''a'' ''x'' 2 [Toc_item ''B'' [] 3 []]]]
     = [Toc_item ''A'' ''x'' 2 [Toc_item ''B'' [] 3 []]]"
    by code_simp
  from cleanup_toc_idempotent [OF s] s v show ?thesis by simp
qed

text \<open>
  Claim C6 as stated fails: in the forest below no item satisfies the collapse condition
  again after its collapse, yet the first pass makes the middle item adopt the reference
  \<open>x\<close> from its child, and the second pass then collapses it into the root.
\<close>

theorem cleanup_toc_not_idempotent:
  "\<not> (\<forall>forest. chain_free forest \<longrightarrow> cleanup_toc (cleanup_toc forest) = cleanup_toc forest)"
proof
  let ?forest = "[Toc_item ''A'' ''x'' 1 [Toc_item ''A'' [] 2 [Toc_item ''A'' ''x'' 3 []]]]"
  assume "\<forall>forest. chain_free forest \<longrightarrow> cleanup_toc (cleanup_toc forest) = cleanup_toc forest"
  moreover have "chain_free ?forest"
    by code_simp
  ultimately have "cleanup_toc (cleanup_toc ?forest) = cleanup_toc ?forest"
    by blast
  moreover have "cleanup_toc ?forest = [Toc_item ''A'' ''x'' 1 [Toc_item ''A'' ''x'' 3 []]]"
    by code_simp
  moreover have "cleanup_toc [Toc_item ''A'' ''x'' 1 [Toc_item ''A'' ''x'' 3 []]]
      = [Toc_item ''A'' ''x'' 1 []]"
    by code_simp
  ultimately show False by simp
qed

section \<open>Text search: the whole-word loop returns\<close>

lemma find_SomeD: "List.find P xs = Some x \<Longrightarrow> x \<in> set xs \<and> P x"
  by (auto simp: find_Some_iff)

lemma wx_find_SomeD:
  "wx_find hay needle start = Some q \<Longrightarrow> start \<le> q \<and> occurs_at hay needle q"
  unfolding wx_find_def by (drule find_SomeD) auto

lemma wx_rfind_SomeD: "wx_rfind hay needle = Some q \<Longrightarrow> occurs_at hay needle q"
  unfolding wx_rfind_def by (drule find_SomeD) simp

lemma occurs_at_Left:
  assumes "occurs_at (wx_Left hay n) needle q"
  shows "occurs_at hay needle q \<and> q + length needle \<le> min n (length hay)"
proof -
  from assms have le: "q + length needle \<le> min n (length hay)"
    and eq: "take (length needle) (drop q (take n hay)) = needle"
    by (simp_all add: occurs_at_def wx_Left_def min.commute)
  from le have "min (length needle) (n - q) = length needle"
    by auto
  with eq have "take (length needle) (drop q hay) = needle"
    by (simp add: drop_take)
  with le show ?thesis
    by (simp add: occurs_at_def)
qed

lemma size_t_of_long_nonneg [simp]: "0 \<le> x \<Longrightarrow> size_t_of_long x = nat x"
  by (simp add: size_t_of_long_def)

lemma long_of_size_t_None [simp]: "long_of_size_t None = wxNOT_FOUND"
  by (simp add: long_of_size_t_def wxNOT_FOUND_def)

lemma long_of_size_t_Some [simp]: "long_of_size_t (Some q) = int q"
  by (simp add: long_of_size_t_def)

lemma int_neq_NOT_FOUND [simp]: "int q \<noteq> wxNOT_FOUND"
  by (simp add: wxNOT_FOUND_def)

lemma whole_word_loop_forward_returns:
  "\<exists>r. whole_word_loop h n sh sn True pos = Some r
     \<and> (r = wxNOT_FOUND \<or> 0 \<le> r \<and> occurs_at sh sn (nat r))"
proof (induction "Suc (length sh) - size_t_of_long pos" arbitrary: pos rule: less_induct)
  case less
  show ?case
  proof (cases "wx_find sh sn (size_t_of_long pos)")
    case None
    then show ?thesis
      by (subst whole_word_loop.simps) simp
  next
    case (Some q)
    from wx_find_SomeD [OF Some] have q: "size_t_of_long pos \<le> q" and occ: "occurs_at sh sn q"
      by simp_all
    from occ have qlen: "q \<le> length sh"
      by (simp add: occurs_at_def)
    let ?accept = "(int q = 0 \<or> \<not> wxIsalnum (h ! (q - 1)))
        \<and> (q + length n \<ge> length h \<or> \<not> wxIsalnum (h ! (q + length n)))"
    show ?thesis
    proof (cases ?accept)
      case True
      then have "whole_word_loop h n sh sn True pos = Some (int q)"
        by (subst whole_word_loop.simps) (simp add: Some Let_def)
      with occ show ?thesis by simp
    next
      case False
      show ?thesis
      proof (cases "Suc q \<ge> length h")
        case True
        with False have "whole_word_loop h n sh sn True pos = Some wxNOT_FOUND"
          by (subst whole_word_loop.simps) (auto simp: Some Let_def nat_add_distrib)
        then show ?thesis by simp
      next
        case stay: False
        with False have eq: "whole_word_loop h n sh sn True pos
            = whole_word_loop h n sh sn True (int q + 1)"
          by (subst whole_word_loop.simps) (auto simp: Some Let_def nat_add_distrib)
        have "Suc (length sh) - size_t_of_long (int q + 1) < Suc (length sh) - size_t_of_long pos"
          using q qlen by (simp add: nat_add_distrib)
        from less [OF this] eq show ?thesis by simp
      qed
    qed
  qed
qed

lemma whole_word_loop_backward_returns:
  "\<exists>r. whole_word_loop h n sh sn False pos = Some r
     \<and> (r = wxNOT_FOUND \<or> 0 \<le> r \<and> occurs_at sh sn (nat r))"
proof (induction "min (size_t_of_long pos) (length sh)" arbitrary: pos rule: less_induct)
  case less
  show ?case
  proof (cases "wx_rfind (wx_Left sh (size_t_of_long pos)) sn")
    case None
    then show ?thesis
      by (subst whole_word_loop.simps) simp
  next
    case (Some q)
    from occurs_at_Left [OF wx_rfind_SomeD [OF Some]]
    have occ: "occurs_at sh sn q" and q: "q + length sn \<le> min (size_t_of_long pos) (length sh)"
      by simp_all
    let ?accept = "(int q = 0 \<or> \<not> wxIsalnum (h ! (q - 1)))
        \<and> (q + length n \<ge> length h \<or> \<not> wxIsalnum (h ! (q + length n)))"
    show ?thesis
    proof (cases ?accept)
      case True
      then have "whole_word_loop h n sh sn False pos = Some (int q)"
        by (subst whole_word_loop.simps) (simp add: Some Let_def)
      with occ show ?thesis by simp
    next
      case False
      show ?thesis
      proof (cases "q = 0")
        case True
        with False have "whole_word_loop h n sh sn False pos = Some wxNOT_FOUND"
          by (subst whole_word_loop.simps) (auto simp: Some Let_def)
        then show ?thesis by simp
      next
        case stay: False
        with False have eq: "whole_word_loop h n sh sn False pos
            = whole_word_loop h n sh sn False (int q - 1)"
          by (subst whole_word_loop.simps) (auto simp: Some Let_def)
        have "min (size_t_of_long (int q - 1)) (length sh) < min (size_t_of_long pos) (length sh)"
          using q stay by (auto simp: nat_diff_distrib)
        from less [OF this] eq show ?thesis by simp
      qed
    qed
  qed
qed

lemma whole_word_loop_returns:
  "\<exists>r. whole_word_loop h n sh sn fwd pos = Some r
     \<and> (r = wxNOT_FOUND \<or> 0 \<le> r \<and> occurs_at sh sn (nat r))"
  using whole_word_loop_forward_returns whole_word_loop_backward_returns
  by (cases fwd) simp_all

lemma backward_regex_loop_range:
  "backward_regex_loop rx t e cur last_match = Inr r \<Longrightarrow> r = last_match \<or> 0 \<le> r"
proof (induction rx t e cur last_match rule: backward_regex_loop.induct)
  case (1 rx t e cur last_match)
  show ?case
  proof (cases "cur \<le> e")
    case False
    with "1.prems" show ?thesis by simp
  next
    case True
    show ?thesis
    proof (cases "rx (take (e - cur) (drop cur t))")
      case (Match k)
      with True "1.prems" have "backward_regex_loop rx t e (cur + k + 1) (int (cur + k)) = Inr r"
        by (subst (asm) backward_regex_loop.simps) (simp del: backward_regex_loop.simps)
      from "1.IH" [OF True Match this] show ?thesis by auto
    next
      case No_match
      with True "1.prems" show ?thesis by simp
    next
      case Regex_error
      with True "1.prems" show ?thesis by simp
    qed
  qed
qed

lemma find_text_regex_range:
  "find_text_regex ctor haystack needle start options = r \<Longrightarrow> r = wxNOT_FOUND \<or> 0 \<le> r"
  by (auto simp: find_text_regex_def find_text_regex_try_def Let_def
      simp del: backward_regex_loop.simps
      split: sum.splits option.splits if_splits regex_result.splits
      dest: backward_regex_loop_range)

lemma length_Lower [simp]: "length (Lower s) = length s"
  by (simp add: Lower_def)

lemma long_of_size_t_range: "long_of_size_t x = wxNOT_FOUND \<or> 0 \<le> long_of_size_t x"
  by (cases x) simp_all

lemma find_text_literal_returns:
  "\<exists>r. find_text_literal haystack needle start options = Some r
     \<and> (r = wxNOT_FOUND \<or> 0 \<le> r \<and> nat r + length needle \<le> length haystack)"
proof (cases "match_whole_word options")
  case True
  let ?sh = "if match_case options then haystack else Lower haystack"
  let ?sn = "if match_case options then needle else Lower needle"
  from whole_word_loop_returns [of haystack needle ?sh ?sn "forward options" start]
  obtain r where "whole_word_loop haystack needle ?sh ?sn (forward options) start = Some r"
    and "r = wxNOT_FOUND \<or> 0 \<le> r \<and> occurs_at ?sh ?sn (nat r)"
    by blast
  with True show ?thesis
    by (auto simp: find_text_literal_def Let_def occurs_at_def split: if_splits)
next
  case False
  let ?sh = "if match_case options then haystack else Lower haystack"
  let ?sn = "if match_case options then needle else Lower needle"
  have f: "long_of_size_t (wx_find ?sh ?sn (size_t_of_long start)) = wxNOT_FOUND
      \<or> 0 \<le> long_of_size_t (wx_find ?sh ?sn (size_t_of_long start))
        \<and> nat (long_of_size_t (wx_find ?sh ?sn (size_t_of_long start))) + length needle
          \<le> length haystack"
  proof (cases "wx_find ?sh ?sn (size_t_of_long start)")
    case None
    then show ?thesis by simp
  next
    case (Some q)
    from wx_find_SomeD [OF Some] have "occurs_at ?sh ?sn q" by simp
    with Some show ?thesis by (auto simp: occurs_at_def split: if_splits)
  qed
  have b: "long_of_size_t (wx_rfind (wx_Left ?sh (size_t_of_long start)) ?sn) = wxNOT_FOUND
      \<or> 0 \<le> long_of_size_t (wx_rfind (wx_Left ?sh (size_t_of_long start)) ?sn)
        \<and> nat (long_of_size_t (wx_rfind (wx_Left ?sh (size_t_of_long start)) ?sn)) + length needle
          \<le> length haystack"
  proof (cases "wx_rfind (wx_Left ?sh (size_t_of_long start)) ?sn")
    case None
    then show ?thesis by simp
  next
    case (Some q)
    from occurs_at_Left [OF wx_rfind_SomeD [OF Some]] have "occurs_at ?sh ?sn q" by simp
    with Some show ?thesis by (auto simp: occurs_at_def split: if_splits)
  qed
  from False f b show ?thesis
    by (cases "forward options") (simp_all add: find_text_literal_def Let_def)
qed




section \<open>Text search: errors collapse to not found\<close>

text \<open>
  Claim C8. \<open>find_text\<close> always returns, and what it returns is \<open>wxNOT_FOUND\<close> or a
  non-negative offset, whatever the regex constructor and the matcher do. It returns
  \<open>wxNOT_FOUND\<close> for the empty needle; with the regex flag set it returns \<open>wxNOT_FOUND\<close>
  when the constructor throws, when anything in the \<open>try\<close> block throws, and in particular
  when matching throws.
\<close>

theorem find_text_error_collapse:
  "(\<exists>r. find_text ctor haystack needle start options = Some r \<and> (r = wxNOT_FOUND \<or> 0 \<le> r))
   \<and> find_text ctor haystack [] start options = Some wxNOT_FOUND
   \<and> (use_regex options
        \<and> ctor (regex_pattern needle options) (\<not> match_case options) = None
      \<longrightarrow> find_text ctor haystack needle start options = Some wxNOT_FOUND)
   \<and> (use_regex options
        \<and> find_text_regex_try ctor haystack needle start options = Inl Exception
      \<longrightarrow> find_text ctor haystack needle start options = Some wxNOT_FOUND)
   \<and> (use_regex options
        \<and> ctor (regex_pattern needle options) (\<not> match_case options) = Some (\<lambda>range. Regex_error)
      \<longrightarrow> find_text ctor haystack needle start options = Some wxNOT_FOUND)"
proof (intro conjI impI)
  show "\<exists>r. find_text ctor haystack needle start options = Some r \<and> (r = wxNOT_FOUND \<or> 0 \<le> r)"
    using find_text_regex_range [OF refl, of ctor haystack needle start options]
      find_text_literal_returns [of haystack needle start options]
    by (auto simp: find_text_def)
next
  show "find_text ctor haystack [] start options = Some wxNOT_FOUND"
    by (simp add: find_text_def)
next
  assume "use_regex options \<and> ctor (regex_pattern needle options) (\<not> match_case options) = None"
  then show "find_text ctor haystack needle start options = Some wxNOT_FOUND"
    by (simp add: find_text_def find_text_regex_def find_text_regex_try_def)
next
  assume "use_regex options \<and> find_text_regex_try ctor haystack needle start options = Inl Exception"
  then show "find_text ctor haystack needle start options = Some wxNOT_FOUND"
    by (simp add: find_text_def find_text_regex_def)
next
  assume "use_regex options
    \<and> ctor (regex_pattern needle options) (\<not> match_case options) = Some (\<lambda>range. Regex_error)"
  then show "find_text ctor haystack needle start options = Some wxNOT_FOUND"
    by (simp add: find_text_def find_text_regex_def find_text_regex_try_def)
qed

theorem find_text_error_collapse_witness:
  "find_text (\<lambda>pattern icase. if pattern = ''('' then None else Some (\<lambda>range. No_match))
     ''abc'' ''('' 0
     \<lparr>forward = True, match_case = False, match_whole_word = False, use_regex = True\<rparr>
   = Some wxNOT_FOUND
   \<and> find_text (\<lambda>pattern icase. Some (\<lambda>range. Regex_error)) ''abc'' ''b'' 3
     \<lparr>forward = False, match_case = False, match_whole_word = False, use_regex = True\<rparr>
   = Some wxNOT_FOUND"
proof -
  let ?ctor = "\<lambda>pattern icase. if pattern = ''('' then None else Some (\<lambda>range :: string. No_match)"
  let ?o1 = "\<lparr>forward = True, match_case = False, match_whole_word = False, use_regex = True\<rparr>"
  let ?raising = "\<lambda>(pattern :: string) (icase :: bool). Some (\<lambda>range :: string. Regex_error)"
  let ?o2 = "\<lparr>forward = False, match_case = False, match_whole_word = False, use_regex = True\<rparr>"
  have c: "?ctor (regex_pattern ''('' ?o1) (\<not> match_case ?o1) = None"
    by (simp add: regex_pattern_def)
  have 1: "find_text ?ctor ''abc'' ''('' 0 ?o1 = Some wxNOT_FOUND"
    using find_text_error_collapse [of ?ctor "''abc''" "''(''" 0 ?o1] c by simp
  have 2: "find_text ?raising ''abc'' ''b'' 3 ?o2 = Some wxNOT_FOUND"
    using find_text_error_collapse [of ?raising "''abc''" "''b''" 3 ?o2] by simp
  from 1 2 show ?thesis by simp
qed

section \<open>Text search: whole words, backward\<close>

text \<open>
  Claim C4 at the input \<open>find_text("-a-ab", "-a", 5, whole word, match case, backward)\<close>.
  The occurrence at offset 0 starts the buffer and is followed by \<open>-\<close>, which is not
  alphanumeric, so it satisfies both boundary checks, and the forward search from 0 returns
  it. The backward search rejects the occurrence at offset 2 and then searches
  \<open>wx_Left(2 - 1)\<close>, a window too short to hold the occurrence at 0: it returns \<open>wxNOT_FOUND\<close>.
\<close>

theorem whole_word_backward_misses_match:
  "find_text (\<lambda>pattern icase. None) ''-a-ab'' ''-a'' 5
     \<lparr>forward = False, match_case = True, match_whole_word = True, use_regex = False\<rparr>
   = Some wxNOT_FOUND
   \<and> occurs_at ''-a-ab'' ''-a'' 0
   \<and> \<not> wxIsalnum (''-a-ab'' ! (0 + length ''-a''))
   \<and> find_text (\<lambda>pattern icase. None) ''-a-ab'' ''-a'' 0
     \<lparr>forward = True, match_case = True, match_whole_word = True, use_regex = False\<rparr>
   = Some 0"
proof -
  have r1: "wx_rfind (wx_Left ''-a-ab'' 5) ''-a'' = Some 2"
    by code_simp
  have r2: "wx_rfind (wx_Left ''-a-ab'' (Suc 0)) ''-a'' = None"
    by code_simp
  have a1: "wxIsalnum CHR ''a''"
    by code_simp
  have a2: "\<not> wxIsalnum CHR ''-''"
    by code_simp
  have f0: "wx_find ''-a-ab'' ''-a'' 0 = Some 0"
    by code_simp
  have o0: "occurs_at ''-a-ab'' ''-a'' 0"
    by code_simp
  have s2: "whole_word_loop ''-a-ab'' ''-a'' ''-a-ab'' ''-a'' False 1 = Some wxNOT_FOUND"
    by (subst whole_word_loop.simps) (simp add: r2)
  have "whole_word_loop ''-a-ab'' ''-a'' ''-a-ab'' ''-a'' False 5
      = whole_word_loop ''-a-ab'' ''-a'' ''-a-ab'' ''-a'' False 1"
    by (subst whole_word_loop.simps) (simp add: r1 a1 Let_def wxNOT_FOUND_def)
  with s2 have b: "whole_word_loop ''-a-ab'' ''-a'' ''-a-ab'' ''-a'' False 5 = Some wxNOT_FOUND"
    by simp
  have f: "whole_word_loop ''-a-ab'' ''-a'' ''-a-ab'' ''-a'' True 0 = Some 0"
    by (subst whole_word_loop.simps) (simp add: f0 a2 Let_def wxNOT_FOUND_def)
  from b f o0 a2 show ?thesis
    by (simp add: find_text_def find_text_literal_def)
qed

section \<open>Text search: regex, backward\<close>

lemma find_append:
  "List.find P (xs @ ys) = (case List.find P xs of Some x \<Rightarrow> Some x | None \<Rightarrow> List.find P ys)"
  by (induction xs) simp_all

lemma upt_split3:
  assumes "cur \<le> p" and "p \<le> e"
  shows "[cur..<Suc e] = [cur..<p] @ p # [Suc p..<Suc e]"
proof -
  define k where "k = Suc e - p"
  with assms(2) have k: "Suc e = p + k" by simp
  have "[cur..<p + k] = [cur..<p] @ [p..<p + k]"
    using assms(1) by (rule upt_add_eq_append)
  moreover have "[p..<Suc e] = p # [Suc p..<Suc e]"
    using assms(2) by (simp add: upt_conv_Cons)
  ultimately show ?thesis
    using k by simp
qed

lemma find_upt_split:
  assumes "List.find M [cur..<Suc e] = Some p"
  shows "cur \<le> p \<and> p \<le> e \<and> M p
    \<and> List.find M (rev [cur..<Suc e])
       = (case List.find M (rev [Suc p..<Suc e]) of Some q \<Rightarrow> Some q | None \<Rightarrow> Some p)"
proof -
  from find_SomeD [OF assms] have p: "cur \<le> p" "p \<le> e" "M p"
    by auto
  from upt_split3 [OF p(1,2)]
  have "rev [cur..<Suc e] = rev [Suc p..<Suc e] @ p # rev [cur..<p]"
    by (simp del: upt_Suc)
  with p show ?thesis
    by (simp add: find_append del: upt_Suc split: option.splits)
qed

lemma find_rev_None: "List.find P xs = None \<Longrightarrow> List.find P (rev xs) = None"
  by (simp add: find_None_iff)

lemma window_regexD:
  "window_regex rx t e M \<Longrightarrow> cur \<le> e \<Longrightarrow> cur = 0 \<or> M (cur - 1) \<Longrightarrow>
     rx (take (e - cur) (drop cur t))
       = (case List.find M [cur..<Suc e] of Some p \<Rightarrow> Match (p - cur) | None \<Rightarrow> No_match)"
  by (auto simp add: window_regex_def list_all_iff simp del: upt_Suc)

lemma backward_regex_loop_result:
  "window_regex rx t e M \<Longrightarrow> cur = 0 \<or> M (cur - 1) \<Longrightarrow>
   backward_regex_loop rx t e cur last_match
    = Inr (case List.find M (rev [cur..<Suc e]) of Some p \<Rightarrow> int p | None \<Rightarrow> last_match)"
proof (induction rx t e cur last_match rule: backward_regex_loop.induct)
  case (1 rx t e cur last_match)
  show ?case
  proof (cases "cur \<le> e")
    case False
    then show ?thesis by simp
  next
    case True
    note rx = window_regexD [OF "1.prems"(1) True "1.prems"(2)]
    show ?thesis
    proof (cases "List.find M [cur..<Suc e]")
      case None
      with rx True find_rev_None [OF None] show ?thesis
        by (simp del: upt_Suc)
    next
      case (Some p)
      from find_upt_split [OF Some] have p: "cur \<le> p" "p \<le> e" "M p"
        and split: "List.find M (rev [cur..<Suc e])
          = (case List.find M (rev [Suc p..<Suc e]) of Some q \<Rightarrow> Some q | None \<Rightarrow> Some p)"
        by blast+
      from rx Some have m: "rx (take (e - cur) (drop cur t)) = Match (p - cur)"
        by simp
      from p(1) have arith: "cur + (p - cur) + 1 = Suc p" "cur + (p - cur) = p"
        by simp_all
      from p(3) arith(1) have reach: "cur + (p - cur) + 1 = 0 \<or> M (cur + (p - cur) + 1 - 1)"
        by simp
      from "1.IH" [OF True m "1.prems"(1) reach]
      have "backward_regex_loop rx t e (Suc p) (int p)
          = Inr (case List.find M (rev [Suc p..<Suc e]) of Some q \<Rightarrow> int q | None \<Rightarrow> int p)"
        unfolding arith by (simp del: upt_Suc backward_regex_loop.simps)
      moreover have "backward_regex_loop rx t e cur last_match
          = backward_regex_loop rx t e (Suc p) (int p)"
        using True m arith
        by (subst backward_regex_loop.simps) (simp del: backward_regex_loop.simps)
      ultimately show ?thesis
        using split
        by (simp del: upt_Suc backward_regex_loop.simps split: option.splits)
    qed
  qed
qed

lemma find_rev_upt_cases:
  "(List.find M (rev [0..<Suc e]) = None \<and> (\<forall>p. p \<le> e \<longrightarrow> \<not> M p))
   \<or> (\<exists>p. List.find M (rev [0..<Suc e]) = Some p \<and> p \<le> e \<and> M p
          \<and> (\<forall>q. p < q \<and> q \<le> e \<longrightarrow> \<not> M q))"
proof (cases "List.find M (rev [0..<Suc e])")
  case None
  then have "\<forall>p. p \<le> e \<longrightarrow> \<not> M p"
    by (auto simp: find_None_iff simp del: upt_Suc)
  with None show ?thesis by blast
next
  case (Some p)
  then obtain i where i: "i < Suc e" "M (rev [0..<Suc e] ! i)" "p = rev [0..<Suc e] ! i"
    "\<forall>j<i. \<not> M (rev [0..<Suc e] ! j)"
    by (auto simp: find_Some_iff simp del: upt_Suc)
  have nth: "rev [0..<Suc e] ! j = e - j" if "j < Suc e" for j
    using that by (simp add: rev_nth del: upt_Suc)
  from i nth have p: "p = e - i" "M p" "p \<le> e" by simp_all
  have "\<not> M q" if "p < q" "q \<le> e" for q
  proof -
    from that p(1) i(1) have lt: "e - q < i" "e - q < Suc e" by auto
    from i(4) lt(1) have "\<not> M (rev [0..<Suc e] ! (e - q))" by blast
    moreover from nth [OF lt(2)] that(2) have "rev [0..<Suc e] ! (e - q) = q" by simp
    ultimately show ?thesis by simp
  qed
  with Some p show ?thesis by blast
qed

lemma find_text_regex_backward_value:
  assumes "needle \<noteq> []" and "use_regex options" and "\<not> forward options"
    and "ctor (regex_pattern needle options) (\<not> match_case options) = Some rx"
    and "window_regex rx haystack (window_end haystack start) M"
  shows "find_text ctor haystack needle start options
    = Some (case List.find M (rev [0..<Suc (window_end haystack start)]) of
              Some p \<Rightarrow> int p
            | None \<Rightarrow> wxNOT_FOUND)"
  using assms backward_regex_loop_result [OF assms(5), of 0 wxNOT_FOUND]
  by (simp add: find_text_def find_text_regex_def find_text_regex_try_def window_end_def
      Let_def del: upt_Suc backward_regex_loop.simps)

text \<open>
  Where the restarted searches report only matches of the pattern in the text (the
  positions \<open>M\<close>), the backward regex search returns the greatest position of \<open>M\<close> that
  is at most the window's end \<open>min(start, length)\<close>, and \<open>wxNOT_FOUND\<close> when \<open>M\<close> has
  no position up to there.
\<close>

theorem find_text_regex_backward:
  assumes "needle \<noteq> []" and "use_regex options" and "\<not> forward options"
    and "ctor (regex_pattern needle options) (\<not> match_case options) = Some rx"
    and "window_regex rx haystack (window_end haystack start) M"
  shows "\<exists>r. find_text ctor haystack needle start options = Some r
    \<and> (r = wxNOT_FOUND \<and> (\<forall>p. p \<le> window_end haystack start \<longrightarrow> \<not> M p)
        \<or> 0 \<le> r \<and> nat r \<le> window_end haystack start \<and> M (nat r)
          \<and> (\<forall>q. nat r < q \<and> q \<le> window_end haystack start \<longrightarrow> \<not> M q))"
proof -
  from assms have "find_text ctor haystack needle start options
    = Some (case List.find M (rev [0..<Suc (window_end haystack start)]) of
              Some p \<Rightarrow> int p
            | None \<Rightarrow> wxNOT_FOUND)"
    by (rule find_text_regex_backward_value)
  with find_rev_upt_cases [of M "window_end haystack start"] show ?thesis
    by (auto simp del: upt_Suc)
qed

theorem find_text_regex_backward_witness:
  "find_text
     (\<lambda>pattern icase. if pattern = ''a'' then
        Some (\<lambda>range. case List.find (\<lambda>i. range ! i = CHR ''a'') [0..<length range] of
                        Some i \<Rightarrow> Match i | None \<Rightarrow> No_match) else None)
     ''banana'' ''a'' 5
     \<lparr>forward = False, match_case = True, match_whole_word = False, use_regex = True\<rparr>
   = Some 3"
proof -
  let ?rx = "\<lambda>range. case List.find (\<lambda>i. range ! i = CHR ''a'') [0..<length range] of
                        Some i \<Rightarrow> Match i | None \<Rightarrow> No_match"
  let ?ctor = "\<lambda>pattern icase. if pattern = ''a'' then Some ?rx else None"
  let ?options = "\<lparr>forward = False, match_case = True, match_whole_word = False, use_regex = True\<rparr>"
  let ?M = "\<lambda>p. p < 5 \<and> ''banana'' ! p = CHR ''a''"
  have e: "window_end ''banana'' 5 = 5"
    by code_simp
  have w: "window_regex ?rx ''banana'' (window_end ''banana'' 5) ?M"
    unfolding e by code_simp
  have c: "?ctor (regex_pattern ''a'' ?options) (\<not> match_case ?options) = Some ?rx"
    by (simp add: regex_pattern_def)
  from find_text_regex_backward [of "''a''" ?options ?ctor ?rx "''banana''" 5 ?M, OF _ _ _ c w]
  obtain r where r: "find_text ?ctor ''banana'' ''a'' 5 ?options = Some r"
    and d: "r = wxNOT_FOUND \<and> (\<forall>p. p \<le> 5 \<longrightarrow> \<not> ?M p)
        \<or> 0 \<le> r \<and> nat r \<le> 5 \<and> ?M (nat r) \<and> (\<forall>q. nat r < q \<and> q \<le> 5 \<longrightarrow> \<not> ?M q)"
    unfolding e by auto
  have m3: "?M 3" by simp
  have "\<not> (\<forall>p. p \<le> 5 \<longrightarrow> \<not> ?M p)"
    using m3 by (intro notI) (drule spec [of _ 3], simp)
  with d have r0: "0 \<le> r" and m: "?M (nat r)"
    and top: "\<forall>q. nat r < q \<and> q \<le> 5 \<longrightarrow> \<not> ?M q"
    by blast+
  from top m3 have "\<not> nat r < 3" by auto
  moreover from m have "nat r \<noteq> 4" by auto
  moreover from m have "nat r < 5" by simp
  ultimately have "nat r = 3" by arith
  with r0 have "r = 3" by simp
  with r show ?thesis by simp
qed

text \<open>
  The loop runs while \<open>cur <= base + end\<close>, so the empty range at the window's end is
  searched too. A pattern that matches the empty string, such as \<open>a*\<close>, matches at the
  first position of every range: in the haystack \<open>b\<close> with start 1 the result is 1, the
  window's end itself, where the rightmost match strictly before the start is at 0.
\<close>

theorem find_text_regex_backward_not_strict:
  "\<not> (\<forall>ctor haystack needle start options rx M.
        needle \<noteq> [] \<and> use_regex options \<and> \<not> forward options
        \<and> ctor (regex_pattern needle options) (\<not> match_case options) = Some rx
        \<and> window_regex rx haystack (window_end haystack start) M
        \<longrightarrow> find_text ctor haystack needle start options
              = Some (rightmost_before M haystack start))"
proof
  let ?rx = "\<lambda>range :: string. Match 0"
  let ?ctor = "\<lambda>(pattern :: string) (icase :: bool). Some ?rx"
  let ?options = "\<lparr>forward = False, match_case = True, match_whole_word = False, use_regex = True\<rparr>"
  let ?M = "\<lambda>p :: nat. True"
  assume a: "\<forall>ctor haystack needle start options rx M.
        needle \<noteq> [] \<and> use_regex options \<and> \<not> forward options
        \<and> ctor (regex_pattern needle options) (\<not> match_case options) = Some rx
        \<and> window_regex rx haystack (window_end haystack start) M
        \<longrightarrow> find_text ctor haystack needle start options
              = Some (rightmost_before M haystack start)"
  have w: "window_regex ?rx ''b'' (window_end ''b'' 1) ?M"
    by code_simp
  from a [rule_format, of "''a*''" ?options ?ctor ?rx "''b''" 1 ?M] w
  have "find_text ?ctor ''b'' ''a*'' 1 ?options = Some (rightmost_before ?M ''b'' 1)"
    by simp
  moreover have "find_text ?ctor ''b'' ''a*'' 1 ?options = Some 1"
    by code_simp
  moreover have "rightmost_before ?M ''b'' 1 = 0"
    by code_simp
  ultimately show False by simp
qed

text \<open>
  Claim C3 at a failing input: the pattern \<open>^a\<close> in the haystack \<open>aaa\<close>, backward from
  offset 3. The pattern matches the haystack at its beginning only, so the rightmost match
  strictly before offset 3 is at 0. The loop finds it, then restarts the search at offsets
  1 and 2; each restart takes its cursor for the beginning of the text, reports a match
  there, and the search returns 2, an offset at which the pattern does not match.
\<close>

theorem find_text_regex_backward_anchor:
  "find_text caret_a_ctor ''aaa'' ''^a'' 3
     \<lparr>forward = False, match_case = True, match_whole_word = False, use_regex = True\<rparr>
     = Some 2
   \<and> rightmost_before (\<lambda>p. caret_a False ''aaa'' = Match p) ''aaa'' 3 = 0"
  by code_simp

end
